theory Spec2Isabelle
  imports Main "HOL-Library.Sublist"
begin

section \<open>Text primitives of the Python standard library\<close>

text \<open>
  Python text is modelled as \<^typ>\<open>string\<close>, a list of 8-bit characters, each read as the
  code point of that number (U+0000 to U+00FF); text with a code point above U+00FF is
  outside the model. On these code points the character classes below are those of
  \<open>str.lower\<close>, \<open>str.strip\<close> and of the regular expressions of
  \<open>scripts/fetch_rss_news.py\<close>, whose patterns are \<open>str\<close> patterns and so follow Unicode:
  \<open>[a-zA-Z]\<close> and \<open>\d\<close> hold of ASCII letters and digits only, \<open>\w\<close> (which decides \<open>\b\<close>)
  holds also of 71 characters from U+00AA on, and white space includes U+0085 and U+00A0.
\<close>

definition is_upper :: "char \<Rightarrow> bool" where
  \<comment> \<open>the class \<open>[A-Z]\<close>\<close>
  "is_upper c = (c \<in> set ''ABCDEFGHIJKLMNOPQRSTUVWXYZ'')"

definition is_lower :: "char \<Rightarrow> bool" where
  \<comment> \<open>the class \<open>[a-z]\<close>\<close>
  "is_lower c = (c \<in> set ''abcdefghijklmnopqrstuvwxyz'')"

definition is_alpha :: "char \<Rightarrow> bool" where
  \<comment> \<open>the class \<open>[a-zA-Z]\<close>\<close>
  "is_alpha c = (is_lower c \<or> is_upper c)"

definition is_digit :: "char \<Rightarrow> bool" where
  \<comment> \<open>the class \<open>\d\<close>: of the code points up to U+00FF, the ten ASCII digits\<close>
  "is_digit c = (c \<in> set ''0123456789'')"

text \<open>
  The characters from U+0080 to U+00FF of which \<open>str.isalnum()\<close> holds, and so \<open>\w\<close>: the
  ordinal indicators, the superscript digits, the micro sign, the fractions, and the
  letters U+00C0 to U+00FF without the multiplication and the division sign.
\<close>

definition latin1_alnum :: "char \<Rightarrow> bool" where
  "latin1_alnum c =
     (let n = of_char c :: nat
      in n \<in> {0xAA, 0xB2, 0xB3, 0xB5, 0xB9, 0xBA, 0xBC, 0xBD, 0xBE}
         \<or> (0xC0 \<le> n \<and> n \<le> 0xD6) \<or> (0xD8 \<le> n \<and> n \<le> 0xF6)
         \<or> (0xF8 \<le> n \<and> n \<le> 0xFF))"

definition is_word :: "char \<Rightarrow> bool" where
  \<comment> \<open>the class \<open>\w\<close>, which decides where \<open>\b\<close> holds\<close>
  "is_word c = (is_alpha c \<or> is_digit c \<or> c = CHR ''_'' \<or> latin1_alnum c)"

definition is_space :: "char \<Rightarrow> bool" where
  \<comment> \<open>what \<open>str.strip()\<close> removes: tab, LF, VT, FF, CR, FS, GS, RS, US, space, NEL (U+0085)
      and the no-break space (U+00A0)\<close>
  "is_space c = (c \<in> set [CHR 0x09, CHR 0x0A, CHR 0x0B, CHR 0x0C, CHR 0x0D,
                            CHR 0x1C, CHR 0x1D, CHR 0x1E, CHR 0x1F, CHR '' '',
                            CHR 0x85, CHR 0xA0])"

text \<open>
  \<open>str.lower()\<close> changes the ASCII capitals and the capitals U+00C0 to U+00DE (without the
  multiplication sign U+00D7), each to the character 32 places on.
\<close>

definition latin1_capitals :: string where
  "latin1_capitals =
     [CHR 0xC0, CHR 0xC1, CHR 0xC2, CHR 0xC3, CHR 0xC4, CHR 0xC5, CHR 0xC6, CHR 0xC7,
      CHR 0xC8, CHR 0xC9, CHR 0xCA, CHR 0xCB, CHR 0xCC, CHR 0xCD, CHR 0xCE, CHR 0xCF,
      CHR 0xD0, CHR 0xD1, CHR 0xD2, CHR 0xD3, CHR 0xD4, CHR 0xD5, CHR 0xD6, CHR 0xD8,
      CHR 0xD9, CHR 0xDA, CHR 0xDB, CHR 0xDC, CHR 0xDD, CHR 0xDE]"

definition latin1_smalls :: string where
  "latin1_smalls =
     [CHR 0xE0, CHR 0xE1, CHR 0xE2, CHR 0xE3, CHR 0xE4, CHR 0xE5, CHR 0xE6, CHR 0xE7,
      CHR 0xE8, CHR 0xE9, CHR 0xEA, CHR 0xEB, CHR 0xEC, CHR 0xED, CHR 0xEE, CHR 0xEF,
      CHR 0xF0, CHR 0xF1, CHR 0xF2, CHR 0xF3, CHR 0xF4, CHR 0xF5, CHR 0xF6, CHR 0xF8,
      CHR 0xF9, CHR 0xFA, CHR 0xFB, CHR 0xFC, CHR 0xFD, CHR 0xFE]"

definition lower_table :: "(char \<times> char) list" where
  "lower_table =
     zip (''ABCDEFGHIJKLMNOPQRSTUVWXYZ'' @ latin1_capitals)
         (''abcdefghijklmnopqrstuvwxyz'' @ latin1_smalls)"

definition lower_char :: "char \<Rightarrow> char" where
  "lower_char c = (case map_of lower_table c of Some l \<Rightarrow> l | None \<Rightarrow> c)"

text \<open>
  \<open>str.upper()\<close> is the converse on these letters. For three more characters, U+00B5,
  U+00DF and U+00FF, its result is text outside the model (U+039C, \<open>SS\<close>, U+0178); the
  source calls it on matches of the CVE pattern only, which consist of ASCII letters,
  digits and hyphens, and \<open>upper_char\<close> leaves these three characters as they are.
\<close>

definition upper_table :: "(char \<times> char) list" where
  "upper_table =
     zip (''abcdefghijklmnopqrstuvwxyz'' @ latin1_smalls)
         (''ABCDEFGHIJKLMNOPQRSTUVWXYZ'' @ latin1_capitals)"

definition upper_char :: "char \<Rightarrow> char" where
  "upper_char c = (case map_of upper_table c of Some u \<Rightarrow> u | None \<Rightarrow> c)"

definition lower :: "string \<Rightarrow> string" where
  "lower s = map lower_char s"

definition upper :: "string \<Rightarrow> string" where
  "upper s = map upper_char s"

definition strip :: "string \<Rightarrow> string" where
  "strip s = rev (dropWhile is_space (rev (dropWhile is_space s)))"

text \<open>\<open>k in text\<close>: the substring test, by trying every position from the left.\<close>

fun str_in :: "string \<Rightarrow> string \<Rightarrow> bool" where
  "str_in k [] = (k = [])"
| "str_in k (c # cs) = (prefix k (c # cs) \<or> str_in k cs)"

text \<open>Truth value of a \<open>str\<close>-or-\<open>None\<close> attribute: \<open>None\<close> and \<open>""\<close> are false.\<close>

definition truthy :: "string option \<Rightarrow> bool" where
  "truthy t = (case t of None \<Rightarrow> False | Some s \<Rightarrow> s \<noteq> [])"


section \<open>Classifier\<close>

text \<open>
  The keyword tables are dict literals; a Python dict iterates in insertion order, so each
  is an association list in the order of the source text.
\<close>

definition CATEGORY_KEYWORDS :: "(string \<times> string list) list" where
  "CATEGORY_KEYWORDS =
    [(''vulnerabilities'', [''vulnerability'', ''cve'', ''exploit'', ''zero-day'', ''patch'',
                           ''security flaw'', ''bug'']),
     (''ransomware'', [''ransomware'', ''lockbit'', ''blackcat'', ''alphv'', ''conti'', ''ransom'']),
     (''data-breaches'', [''breach'', ''leak'', ''exposed'', ''compromised'', ''stolen data'']),
     (''malware'', [''malware'', ''trojan'', ''virus'', ''backdoor'', ''rat'', ''infostealer'',
                   ''botnet'']),
     (''phishing'', [''phishing'', ''scam'', ''social engineering'', ''bec'', ''email attack'']),
     (''threat-actors'', [''apt'', ''threat actor'', ''hacker group'', ''nation-state'',
                         ''lazarus'', ''apt29'']),
     (''compliance'', [''compliance'', ''regulation'', ''gdpr'', ''hipaa'', ''pci''])]"

definition SEVERITY_KEYWORDS :: "(string \<times> string list) list" where
  "SEVERITY_KEYWORDS =
    [(''critical'', [''critical'', ''urgent'', ''emergency'', ''zero-day'', ''actively exploited'',
                    ''rce'']),
     (''high'', [''high'', ''severe'', ''major'', ''important'', ''exploit'']),
     (''low'', [''low'', ''minor'', ''informational''])]"

text \<open>The inner loop \<open>for keyword in keywords: if keyword in text: return ...\<close>.\<close>

fun keyword_loop :: "string list \<Rightarrow> string \<Rightarrow> bool" where
  "keyword_loop [] text = False"
| "keyword_loop (keyword # keywords) text =
     (if str_in keyword text then True else keyword_loop keywords text)"

text \<open>
  The outer loop over the items of a table; the last argument is the value returned after
  the loop.
\<close>

fun table_loop :: "(string \<times> string list) list \<Rightarrow> string \<Rightarrow> string \<Rightarrow> string" where
  "table_loop [] text dflt = dflt"
| "table_loop ((label, keywords) # rest) text dflt =
     (if keyword_loop keywords text then label else table_loop rest text dflt)"

definition categorize_article :: "string \<Rightarrow> string \<Rightarrow> string" where
  "categorize_article title content =
     table_loop CATEGORY_KEYWORDS (lower (title @ '' '' @ content)) ''industry-news''"

definition determine_severity :: "string \<Rightarrow> string \<Rightarrow> string" where
  "determine_severity title content =
     table_loop SEVERITY_KEYWORDS (lower (title @ '' '' @ content)) ''medium''"

text \<open>Occurrence of a keyword in a text, as the specification words it.\<close>

definition occurs_in :: "string \<Rightarrow> string \<Rightarrow> bool" where
  "occurs_in k t = (\<exists>p s. t = p @ k @ s)"

text \<open>
  \<open>re.findall(r"CVE-\d{4}-\d+", text, re.IGNORECASE)\<close>. \<open>match_cve s\<close> is the attempt to
  match the pattern at the start of \<open>s\<close>: the letters in either case, four digits, a
  hyphen, then as many digits as follow (at least one). The last group is greedy and
  nothing follows it, so there is no backtracking. \<open>findall_cve\<close> scans from the left, and
  resumes after a match at the first character which the match did not consume.
\<close>

definition match_cve :: "string \<Rightarrow> string option" where
  "match_cve s =
     (let digits = takeWhile is_digit (drop 9 s)
      in if lower (take 4 s) = ''cve-''
            \<and> length (take 4 (drop 4 s)) = 4 \<and> list_all is_digit (take 4 (drop 4 s))
            \<and> take 1 (drop 8 s) = ''-''
            \<and> digits \<noteq> []
         then Some (take 9 s @ digits)
         else None)"

function findall_cve :: "string \<Rightarrow> string list" where
  "findall_cve s =
     (if s = [] then []
      else case match_cve s of
             Some m \<Rightarrow> m # findall_cve (drop (length m) s)
           | None \<Rightarrow> findall_cve (tl s))"
  by pat_completeness auto
termination
  by (relation "measure length")
     (auto simp: match_cve_def Let_def split: if_splits)

declare findall_cve.simps [simp del]

text \<open>
  \<open>list(set(cve.upper() for cve in matches))\<close>. The order in which Python lists the
  elements of a set is not fixed by the source; \<open>remdups\<close> fixes one, and the statements
  below speak of the elements and of their distinctness only.
\<close>

definition extract_cves :: "string \<Rightarrow> string list" where
  "extract_cves t = remdups (map upper (findall_cve t))"

text \<open>
  The pattern as the specification words it: \<open>CVE-\<close> in either case, exactly four digits,
  a hyphen, one or more digits; and an occurrence of it in a text, with as many final digits
  as the text has at that place.
\<close>

definition cve_pattern :: "string \<Rightarrow> bool" where
  "cve_pattern m =
     (\<exists>l y n. m = l @ y @ ''-'' @ n \<and> lower l = ''cve-''
        \<and> length y = 4 \<and> list_all is_digit y \<and> n \<noteq> [] \<and> list_all is_digit n)"

definition cve_occurs :: "string \<Rightarrow> string \<Rightarrow> bool" where
  "cve_occurs m t = (\<exists>p s. t = p @ m @ s \<and> cve_pattern m \<and> takeWhile is_digit s = [])"

text \<open>
  \<open>re.findall(r"\b[a-zA-Z]{4,}\b", title.lower())\<close>. \<open>\b\<close> holds between two positions when
  exactly one of the neighbouring characters is a word character; the ends of the string
  count as a non-word character.
\<close>

definition word_boundary :: "char option \<Rightarrow> char option \<Rightarrow> bool" where
  "word_boundary prev next =
     ((case prev of None \<Rightarrow> False | Some c \<Rightarrow> is_word c)
        \<noteq> (case next of None \<Rightarrow> False | Some c \<Rightarrow> is_word c))"

definition first_char :: "string \<Rightarrow> char option" where
  "first_char s = (case s of [] \<Rightarrow> None | c # _ \<Rightarrow> Some c)"

text \<open>
  The attempt to match at the start of \<open>s\<close>, the character before it being \<open>prev\<close>. The
  letter group is greedy: the longest run of letters is tried first, then every shorter
  one down to four letters, and the first length after which \<open>\b\<close> holds is the match.
\<close>

definition match_tag :: "char option \<Rightarrow> string \<Rightarrow> string option" where
  "match_tag prev s =
     (if \<not> word_boundary prev (first_char s) then None
      else case find (\<lambda>k. word_boundary (Some (s ! (k - 1))) (first_char (drop k s)))
                     (rev [4 ..< Suc (length (takeWhile is_alpha s))]) of
             None \<Rightarrow> None
           | Some k \<Rightarrow> Some (take k s))"

function findall_tag :: "char option \<Rightarrow> string \<Rightarrow> string list" where
  "findall_tag prev s =
     (if s = [] then []
      else case match_tag prev s of
             Some m \<Rightarrow> m # findall_tag (Some (last m)) (drop (length m) s)
           | None \<Rightarrow> findall_tag (Some (hd s)) (tl s))"
  by pat_completeness auto
termination
proof (relation "measure (\<lambda>(prev, s). length s)")
  fix prev :: "char option" and s m :: string
  assume "s \<noteq> []" and "match_tag prev s = Some m"
  then obtain k where
    k: "find (\<lambda>k. word_boundary (Some (s ! (k - 1))) (first_char (drop k s)))
             (rev [4 ..< Suc (length (takeWhile is_alpha s))]) = Some k"
    and m: "m = take k s"
    by (auto simp: match_tag_def split: if_splits option.splits)
  from k have "k \<in> set (rev [4 ..< Suc (length (takeWhile is_alpha s))])"
    unfolding find_Some_iff by (metis nth_mem)
  then have "4 \<le> k" by auto
  with m \<open>s \<noteq> []\<close> have "0 < length m" by simp
  with \<open>s \<noteq> []\<close>
  show "((Some (last m), drop (length m) s), (prev, s)) \<in> measure (\<lambda>(prev, s). length s)"
    by simp
qed auto

declare findall_tag.simps [simp del]

definition stop_words :: "string set" where
  "stop_words = {''the'', ''a'', ''an'', ''is'', ''in'', ''on'', ''at'', ''for'', ''to'', ''of'',
                 ''and'', ''or'', ''with'', ''by'', ''from''}"

definition generate_tags :: "string \<Rightarrow> string list" where
  "generate_tags title =
     (let words = findall_tag None (lower title)
      in take 5 (filter (\<lambda>w. w \<notin> stop_words) words))"

text \<open>
  The tokenizer of the specification's wording, for comparison: the maximal runs of
  characters of a class, from left to right.
\<close>

function runs :: "(char \<Rightarrow> bool) \<Rightarrow> string \<Rightarrow> string list" where
  "runs P s =
     (if s = [] then []
      else if P (hd s) then takeWhile P s # runs P (dropWhile P s)
      else runs P (tl s))"
  by pat_completeness auto
termination
proof (relation "measure (\<lambda>(P, s). length s)")
  fix P :: "char \<Rightarrow> bool" and s :: string
  assume "s \<noteq> []" and "P (hd s)"
  then obtain c cs where "s = c # cs" and "P c" by (cases s) auto
  then have "length (dropWhile P s) \<le> length cs" by (simp add: length_dropWhile_le)
  then show "((P, dropWhile P s), (P, s)) \<in> measure (\<lambda>(P, s). length s)"
    using \<open>s = c # cs\<close> by simp
qed auto

declare runs.simps [simp del]

definition spec_generate_tags :: "string \<Rightarrow> string list" where
  \<comment> \<open>``tokenize title into alphabetic runs of length at least 4, lowercase, filter against
      a fixed stop-word set, keep first 5''\<close>
  "spec_generate_tags title =
     take 5 (filter (\<lambda>w. w \<notin> stop_words)
       (filter (\<lambda>w. 4 \<le> length w) (runs is_alpha (lower title))))"

text \<open>
  Whether the character before a position is a word character, and the runs which the
  pattern of \<open>generate_tags\<close> accepts.
\<close>

definition prev_is_word :: "char option \<Rightarrow> bool" where
  "prev_is_word prev = (case prev of None \<Rightarrow> False | Some c \<Rightarrow> is_word c)"

definition good_run :: "string \<Rightarrow> bool" where
  "good_run w = (4 \<le> length w \<and> list_all is_alpha w)"


section \<open>Feed documents\<close>

text \<open>
  An \<open>xml.etree.ElementTree.Element\<close>, as far as the script reads it: the tag, the text
  before the first child (\<open>None\<close> when there is none) and the children in document order.
\<close>

datatype element = Element (elem_tag: string) (elem_text: "string option")
  (elem_children: "element list")

text \<open>\<open>elem.find(name)\<close>: the first child with this tag.\<close>

definition find_child :: "string \<Rightarrow> element \<Rightarrow> element option" where
  "find_child name e = find (\<lambda>c. elem_tag c = name) (elem_children e)"

text \<open>
  \<open>root.findall(".//" + name)\<close>: every descendant with this tag, in document order; the
  root itself is not among them.
\<close>

fun descendants :: "element \<Rightarrow> element list" where
  "descendants (Element t x cs) = concat (map (\<lambda>c. c # descendants c) cs)"

definition findall_descendants :: "string \<Rightarrow> element \<Rightarrow> element list" where
  "findall_descendants name root = filter (\<lambda>e. elem_tag e = name) (descendants root)"


section \<open>Article extractor\<close>

record article =
  title :: string
  content :: string
  summary :: string
  category_slug :: string
  severity :: string
  tags :: "string list"
  source_url :: string
  source_name :: string
  cves :: "string list"
  vendors :: "string list"
  skip_enrichment :: bool

text \<open>
  \<open>re.sub(r"<!\[CDATA\[|\]\]>", "", s)\<close>: scanning from the left, every occurrence of
  either marker is dropped.
\<close>

function remove_cdata :: "string \<Rightarrow> string" where
  "remove_cdata s =
     (if s = [] then []
      else if prefix ''<![CDATA['' s then remove_cdata (drop 9 s)
      else if prefix '']]>'' s then remove_cdata (drop 3 s)
      else hd s # remove_cdata (tl s))"
  by pat_completeness auto
termination
  by (relation "measure length") auto

declare remove_cdata.simps [simp del]

text \<open>
  \<open>re.sub(r"<[^>]+>", "", s)\<close>: a match starts at a \<open><\<close>, takes every following character
  other than \<open>>\<close> (at least one) and needs a \<open>>\<close> right after them; a shorter run of
  characters is never followed by \<open>>\<close>, so backtracking finds nothing more.
\<close>

function remove_tags :: "string \<Rightarrow> string" where
  "remove_tags s =
     (if s = [] then []
      else if hd s = CHR ''<''
              \<and> takeWhile (\<lambda>c. c \<noteq> CHR ''>'') (tl s) \<noteq> []
              \<and> dropWhile (\<lambda>c. c \<noteq> CHR ''>'') (tl s) \<noteq> []
           then remove_tags (tl (dropWhile (\<lambda>c. c \<noteq> CHR ''>'') (tl s)))
      else hd s # remove_tags (tl s))"
  by pat_completeness auto
termination
proof (relation "measure length")
  fix s :: string
  assume "s \<noteq> []"
  have "length (tl (dropWhile (\<lambda>c. c \<noteq> CHR ''>'') (tl s)))
          \<le> length (dropWhile (\<lambda>c. c \<noteq> CHR ''>'') (tl s))"
    by simp
  also have "\<dots> \<le> length (tl s)" by (rule length_dropWhile_le)
  also have "\<dots> < length s" using \<open>s \<noteq> []\<close> by simp
  finally show "(tl (dropWhile (\<lambda>c. c \<noteq> CHR ''>'') (tl s)), s) \<in> measure length"
    by simp
qed auto

declare remove_tags.simps [simp del]

text \<open>\<open>elem.text if elem is not None and elem.text else None\<close>.\<close>

definition present_text :: "element option \<Rightarrow> string option" where
  "present_text elem =
     (case elem of
        None \<Rightarrow> None
      | Some e \<Rightarrow> if truthy (elem_text e) then elem_text e else None)"

definition sanitize :: "string \<Rightarrow> string" where
  "sanitize s = strip (remove_tags (remove_cdata s))"

text \<open>
  \<open>parse_rss_item\<close>. The parameter \<open>namespaces\<close> and the element \<open>pubDate\<close> are read by the
  source but reach no field of the result; they are left out.
\<close>

definition parse_rss_item :: "element \<Rightarrow> string \<Rightarrow> article option" where
  "parse_rss_item item name =
     (let title_elem = find_child ''title'' item;
          link_elem = find_child ''link'' item;
          desc_elem = find_child ''description'' item
      in case title_elem of
           None \<Rightarrow> None
         | Some te \<Rightarrow>
             (case elem_text te of
                None \<Rightarrow> None
              | Some title_text \<Rightarrow>
                  (let title' = strip title_text;
                       link = (case present_text link_elem of
                                 Some s \<Rightarrow> strip s | None \<Rightarrow> []);
                       description = (case present_text desc_elem of
                                        Some s \<Rightarrow> sanitize s | None \<Rightarrow> []);
                       category = categorize_article title' description;
                       severity' = determine_severity title' description;
                       cves' = extract_cves (title' @ '' '' @ description);
                       tags' = generate_tags title'
                   in Some \<lparr> title = take 500 title',
                             content = take 10000 description,
                             summary = take 300 description,
                             category_slug = category,
                             severity = severity',
                             tags = tags',
                             source_url = link,
                             source_name = name,
                             cves = cves',
                             vendors = [],
                             skip_enrichment = False \<rparr>)))"

text \<open>
  The wording of the specification for the validation gate: the title is absent, or empty
  after the item is parsed (the parsed title is the stripped text).
\<close>

definition spec_title_absent_or_empty :: "element \<Rightarrow> bool" where
  "spec_title_absent_or_empty item =
     (case find_child ''title'' item of
        None \<Rightarrow> True
      | Some te \<Rightarrow> (case elem_text te of None \<Rightarrow> True | Some t \<Rightarrow> strip t = []))"


section \<open>Webhook publisher\<close>

definition WEBHOOK_URL :: string where
  "WEBHOOK_URL = ''http://localhost:8080/v1/webhooks/n8n''"

definition WEBHOOK_SECRET :: string where
  "WEBHOOK_SECRET = ''dev_webhook_secret_local''"

record metadata =
  workflow_id :: string
  execution_id :: string
  timestamp :: string

record payload =
  event_type :: string
  data :: article
  metadata :: metadata

text \<open>
  The functions of the standard library which the publisher calls on its own data:
  \<open>json.dumps\<close> (its result is ASCII, so \<open>.encode("utf-8")\<close> leaves it as it is) and
  \<open>hmac.new(key, msg, hashlib.sha256).hexdigest()\<close>. They are parameters of the model.
\<close>

record stdlib =
  json_dumps :: "payload \<Rightarrow> string"
  hmac_sha256_hexdigest :: "string \<Rightarrow> string \<Rightarrow> string"

definition create_hmac_signature :: "stdlib \<Rightarrow> string \<Rightarrow> string \<Rightarrow> string" where
  "create_hmac_signature lib payload_bytes secret =
     ''sha256='' @ hmac_sha256_hexdigest lib secret payload_bytes"

text \<open>The \<open>urllib.request.Request\<close> handed to \<open>urlopen\<close>.\<close>

record request =
  req_url :: string
  req_data :: string
  req_headers :: "(string \<times> string) list"
  req_method :: string

text \<open>
  A value read by \<open>json.loads\<close>, and what \<open>urlopen\<close> and the reading of the response do:
  raise \<open>URLError\<close> (or its subclass \<open>HTTPError\<close>), raise an exception of another class,
  or give a response with a status code and a body (\<open>urlopen\<close> returns a response for a
  status that is no error; an error status raises \<open>HTTPError\<close>); of the body the model
  keeps what \<open>json.loads(response.read().decode())\<close> makes of it.
\<close>

datatype json = JObject "(string \<times> json) list" | JArray "json list" | JString string
  | JNumber int | JBool bool | JNull

datatype body = NotJSON | JSON json

datatype urlopen_outcome = RaisesURLError | RaisesOther | Responds nat body

datatype py_exception = JSONDecodeError | AttributeError | OtherException

text \<open>
  \<open>post_to_webhook\<close>: the request it sends, and either the exception that leaves it or
  the value it returns. \<open>now1\<close> and \<open>now2\<close> are the two readings of
  \<open>datetime.utcnow().isoformat()\<close>. \<open>result.get\<close> exists on a dict only.
\<close>

definition post_to_webhook ::
  "stdlib \<Rightarrow> (request \<Rightarrow> urlopen_outcome) \<Rightarrow> string \<Rightarrow> string \<Rightarrow> article
     \<Rightarrow> request \<times> (py_exception + bool)" where
  "post_to_webhook lib urlopen now1 now2 article_data =
     (let payload = \<lparr> event_type = ''article.created'',
                       data = article_data,
                       metadata = \<lparr> workflow_id = ''rss-fetcher'',
                                    execution_id = now1,
                                    timestamp = now2 \<rparr> \<rparr>;
          payload_bytes = json_dumps lib payload;
          signature = create_hmac_signature lib payload_bytes WEBHOOK_SECRET;
          headers = [(''Content-Type'', ''application/json''),
                     (''X-N8N-Signature'', signature)];
          req = \<lparr> req_url = WEBHOOK_URL, req_data = payload_bytes,
                   req_headers = headers, req_method = ''POST'' \<rparr>
      in (req,
          case urlopen req of
            RaisesURLError \<Rightarrow> Inr False
          | RaisesOther \<Rightarrow> Inl OtherException
          | Responds code b \<Rightarrow>
              (case b of
                 NotJSON \<Rightarrow> Inl JSONDecodeError
               | JSON result \<Rightarrow>
                   (case result of
                      JObject members \<Rightarrow> Inr True
                    | _ \<Rightarrow> Inl AttributeError))))"


section \<open>Pipeline orchestrator\<close>

definition RSS_FEEDS :: "(string \<times> string) list" where
  \<comment> \<open>the pairs \<open>(url, name)\<close>\<close>
  "RSS_FEEDS =
     [(''https://feeds.feedburner.com/TheHackersNews'', ''The Hacker News''),
      (''https://www.bleepingcomputer.com/feed/'', ''BleepingComputer'')]"

text \<open>
  The world outside the process: what fetching a feed URL gives, what the webhook answers
  to the \<open>k\<close>-th request, and the \<open>k\<close>-th reading of the clock.
\<close>

datatype fetch_outcome = FetchURLError | FetchParseError | FetchOther | Fetched element

record env =
  feed_at :: "string \<Rightarrow> fetch_outcome"
  webhook_at :: "nat \<Rightarrow> request \<Rightarrow> urlopen_outcome"
  utcnow :: "nat \<Rightarrow> string"

text \<open>
  \<open>fetch_rss_feed\<close> catches \<open>URLError\<close> and \<open>ET.ParseError\<close> and returns \<open>None\<close>; any other
  exception leaves it.
\<close>

definition fetch_rss_feed :: "env \<Rightarrow> string \<Rightarrow> py_exception + element option" where
  "fetch_rss_feed world url =
     (case feed_at world url of
        Fetched root \<Rightarrow> Inr (Some root)
      | FetchURLError \<Rightarrow> Inr None
      | FetchParseError \<Rightarrow> Inr None
      | FetchOther \<Rightarrow> Inl OtherException)"

text \<open>
  The two counters of \<open>main\<close>, and the requests sent to the webhook so far, in order.
\<close>

record run_state =
  total_articles :: int
  success_count :: int
  sent :: "request list"

definition initial_state :: run_state where
  "initial_state = \<lparr> total_articles = 0, success_count = 0, sent = [] \<rparr>"

text \<open>The body of the loop \<open>for item in items[:10]\<close>.\<close>

definition process_item ::
  "stdlib \<Rightarrow> env \<Rightarrow> string \<Rightarrow> run_state \<Rightarrow> element \<Rightarrow> py_exception + run_state" where
  "process_item lib world name st item =
     (case parse_rss_item item name of
        None \<Rightarrow> Inr st
      | Some article_data \<Rightarrow>
          (let k = length (sent st);
               st1 = st \<lparr> total_articles := total_articles st + 1 \<rparr>;
               (req, r) = post_to_webhook lib (webhook_at world k)
                            (utcnow world (2 * k)) (utcnow world (2 * k + 1)) article_data;
               st2 = st1 \<lparr> sent := sent st1 @ [req] \<rparr>
           in case r of
                Inl e \<Rightarrow> Inl e
              | Inr delivered \<Rightarrow>
                  if delivered then Inr (st2 \<lparr> success_count := success_count st2 + 1 \<rparr>)
                  else Inr st2))"

fun item_loop ::
  "stdlib \<Rightarrow> env \<Rightarrow> string \<Rightarrow> run_state \<Rightarrow> element list \<Rightarrow> py_exception + run_state" where
  "item_loop lib world name st [] = Inr st"
| "item_loop lib world name st (item # items) =
     (case process_item lib world name st item of
        Inl e \<Rightarrow> Inl e
      | Inr st' \<Rightarrow> item_loop lib world name st' items)"

text \<open>
  \<open>items = root.findall(".//item")\<close>, and the Atom entries \<open>if not items\<close>.
\<close>

definition discover_items :: "element \<Rightarrow> element list" where
  "discover_items root =
     (let items = findall_descendants ''item'' root
      in if items = [] then findall_descendants ''{http://www.w3.org/2005/Atom}entry'' root
         else items)"

text \<open>The body of the loop \<open>for feed_info in RSS_FEEDS\<close>.\<close>

definition process_feed ::
  "stdlib \<Rightarrow> env \<Rightarrow> run_state \<Rightarrow> string \<times> string \<Rightarrow> py_exception + run_state" where
  "process_feed lib world st feed_info =
     (case fetch_rss_feed world (fst feed_info) of
        Inl e \<Rightarrow> Inl e
      | Inr None \<Rightarrow> Inr st
      | Inr (Some root) \<Rightarrow>
          item_loop lib world (snd feed_info) st (take 10 (discover_items root)))"

fun feed_loop ::
  "stdlib \<Rightarrow> env \<Rightarrow> run_state \<Rightarrow> (string \<times> string) list \<Rightarrow> py_exception + run_state" where
  "feed_loop lib world st [] = Inr st"
| "feed_loop lib world st (feed_info # feeds) =
     (case process_feed lib world st feed_info of
        Inl e \<Rightarrow> Inl e
      | Inr st' \<Rightarrow> feed_loop lib world st' feeds)"

text \<open>\<open>main\<close>: the final state and the value returned, unless an exception leaves it.\<close>

definition main :: "stdlib \<Rightarrow> env \<Rightarrow> py_exception + (run_state \<times> int)" where
  "main lib world =
     (case feed_loop lib world initial_state RSS_FEEDS of
        Inl e \<Rightarrow> Inl e
      | Inr st \<Rightarrow> Inr (st, if success_count st > 0 then 0 else 1))"

text \<open>
  \<open>sys.exit(main())\<close>: the exit status of the process is the value returned; an uncaught
  exception ends the interpreter with status 1.
\<close>

definition exit_status :: "py_exception + (run_state \<times> int) \<Rightarrow> int" where
  "exit_status r = (case r of Inl e \<Rightarrow> 1 | Inr (st, rc) \<Rightarrow> rc)"

text \<open>
  The states of the counters after each item that has been processed, over a loop of
  items and over the whole run.
\<close>

fun item_states ::
  "stdlib \<Rightarrow> env \<Rightarrow> string \<Rightarrow> run_state \<Rightarrow> element list \<Rightarrow> run_state list" where
  "item_states lib world name st [] = []"
| "item_states lib world name st (item # items) =
     (case process_item lib world name st item of
        Inl e \<Rightarrow> []
      | Inr st' \<Rightarrow> st' # item_states lib world name st' items)"

fun feed_states ::
  "stdlib \<Rightarrow> env \<Rightarrow> run_state \<Rightarrow> (string \<times> string) list \<Rightarrow> run_state list" where
  "feed_states lib world st [] = []"
| "feed_states lib world st (feed_info # feeds) =
     (case fetch_rss_feed world (fst feed_info) of
        Inl e \<Rightarrow> []
      | Inr None \<Rightarrow> feed_states lib world st feeds
      | Inr (Some root) \<Rightarrow>
          item_states lib world (snd feed_info) st (take 10 (discover_items root))
          @ (case process_feed lib world st feed_info of
               Inl e \<Rightarrow> []
             | Inr st' \<Rightarrow> feed_states lib world st' feeds))"


text \<open>The invariant of the two counters.\<close>

definition counters_ok :: "run_state \<Rightarrow> bool" where
  "counters_ok st = (0 \<le> success_count st \<and> success_count st \<le> total_articles st)"

text \<open>The request which the \<open>k\<close>-th call of \<open>post_to_webhook\<close> sends for an article.\<close>

definition webhook_request :: "stdlib \<Rightarrow> env \<Rightarrow> nat \<Rightarrow> article \<Rightarrow> request" where
  "webhook_request lib world k a =
     fst (post_to_webhook lib (webhook_at world k) (utcnow world (2 * k))
            (utcnow world (2 * k + 1)) a)"


section \<open>Example inputs\<close>

text \<open>
  Stand-ins for the two library functions, an article, items, feed documents and worlds, on
  which the statements below are instantiated.
\<close>

definition example_lib :: stdlib where
  "example_lib = \<lparr> json_dumps = (\<lambda>p. title (data p)),
                   hmac_sha256_hexdigest = (\<lambda>key msg. key @ msg) \<rparr>"

definition example_article :: article where
  "example_article =
     \<lparr> title = ''Patch now'', content = ''A patch is out.'', summary = ''A patch is out.'',
       category_slug = ''vulnerabilities'', severity = ''medium'', tags = [''patch''],
       source_url = ''https://example.org/1'', source_name = ''The Hacker News'',
       cves = [], vendors = [], skip_enrichment = False \<rparr>"

definition titled_item :: "string \<Rightarrow> element" where
  "titled_item t = Element ''item'' None [Element ''title'' (Some t) []]"

definition blank_title_item :: element where
  "blank_title_item = Element ''item'' None [Element ''title'' (Some ''   '') []]"

definition empty_title_item :: element where
  "empty_title_item = Element ''item'' None [Element ''title'' (Some []) []]"

definition untitled_item :: element where
  "untitled_item = Element ''item'' None [Element ''link'' (Some ''https://example.org/2'') []]"


definition twelve_items :: element where
  "twelve_items =
     Element ''rss'' None
       [Element ''channel'' (Some ''news'')
          (Element ''title'' (Some ''Example feed'') []
           # map (\<lambda>c. titled_item [c]) ''ABCDEFGHIJKL'')]"

definition always_ok :: "nat \<Rightarrow> request \<Rightarrow> urlopen_outcome" where
  "always_ok k req = Responds 200 (JSON (JObject [(''status'', JString ''ok'')]))"

definition unreachable :: "nat \<Rightarrow> request \<Rightarrow> urlopen_outcome" where
  "unreachable k req = RaisesURLError"

definition answers_plain_ok :: "request \<Rightarrow> urlopen_outcome" where
  "answers_plain_ok req = Responds 200 NotJSON"

definition first_ok_then_down :: "nat \<Rightarrow> request \<Rightarrow> urlopen_outcome" where
  "first_ok_then_down k req = (if k = 0 then always_ok k req else unreachable k req)"

definition one_feed :: "string \<Rightarrow> fetch_outcome" where
  "one_feed url =
     (if url = ''https://feeds.feedburner.com/TheHackersNews'' then Fetched twelve_items
      else FetchURLError)"

definition no_feed :: "string \<Rightarrow> fetch_outcome" where
  "no_feed url = FetchURLError"

definition fixed_clock :: "nat \<Rightarrow> string" where
  "fixed_clock k = ''2024-01-01T00:00:00''"

definition good_world :: env where
  "good_world = \<lparr> feed_at = one_feed, webhook_at = always_ok, utcnow = fixed_clock \<rparr>"

definition flaky_world :: env where
  "flaky_world = \<lparr> feed_at = one_feed, webhook_at = first_ok_then_down, utcnow = fixed_clock \<rparr>"

definition dark_world :: env where
  "dark_world = \<lparr> feed_at = no_feed, webhook_at = always_ok, utcnow = fixed_clock \<rparr>"


definition plain_world :: env where
  "plain_world = \<lparr> feed_at = one_feed, webhook_at = (\<lambda>k. answers_plain_ok),
                    utcnow = fixed_clock \<rparr>"

definition ok_then_plain :: "nat \<Rightarrow> request \<Rightarrow> urlopen_outcome" where
  "ok_then_plain k req = (if k = 0 then always_ok k req else answers_plain_ok req)"

definition crash_world :: env where
  "crash_world = \<lparr> feed_at = one_feed, webhook_at = ok_then_plain, utcnow = fixed_clock \<rparr>"


section \<open>Properties\<close>

lemmas char_tables =
  lower_char_def lower_table_def upper_char_def upper_table_def
  latin1_capitals_def latin1_smalls_def

subsection \<open>Substring test\<close>

lemma str_in_iff: "str_in k t \<longleftrightarrow> (\<exists>p s. t = p @ k @ s)"
proof (induction t)
  case Nil
  then show ?case by auto
next
  case (Cons c cs)
  show ?case
  proof
    assume "str_in k (c # cs)"
    then consider "prefix k (c # cs)" | "str_in k cs" by auto
    then show "\<exists>p s. c # cs = p @ k @ s"
    proof cases
      case 1
      then obtain s where "c # cs = k @ s" by (auto simp: prefix_def)
      then have "c # cs = [] @ k @ s" by simp
      then show ?thesis by blast
    next
      case 2
      with Cons.IH obtain p s where "cs = p @ k @ s" by blast
      then have "c # cs = (c # p) @ k @ s" by simp
      then show ?thesis by blast
    qed
  next
    assume "\<exists>p s. c # cs = p @ k @ s"
    then obtain p s where eq: "c # cs = p @ k @ s" by blast
    show "str_in k (c # cs)"
    proof (cases p)
      case Nil
      with eq have "prefix k (c # cs)" by (simp add: prefix_def)
      then show ?thesis by simp
    next
      case (Cons a p')
      with eq have "cs = p' @ k @ s" by simp
      with Cons.IH have "str_in k cs" by blast
      then show ?thesis by simp
    qed
  qed
qed

lemma keyword_loop_iff: "keyword_loop kws t \<longleftrightarrow> (\<exists>k \<in> set kws. str_in k t)"
  by (induction kws) auto

lemma table_loop_find:
  "table_loop tbl t dflt =
     (case find (\<lambda>(label, kws). \<exists>k \<in> set kws. str_in k t) tbl of
        Some (label, kws) \<Rightarrow> label
      | None \<Rightarrow> dflt)"
  by (induction tbl t dflt rule: table_loop.induct) (auto simp: keyword_loop_iff)

subsection \<open>Classifier\<close>

lemma table_loop_first:
  "i < length tbl \<Longrightarrow> keyword_loop (snd (tbl ! i)) t \<Longrightarrow>
   (\<forall>j < i. \<not> keyword_loop (snd (tbl ! j)) t) \<Longrightarrow>
   table_loop tbl t d = fst (tbl ! i)"
proof (induction tbl arbitrary: i)
  case Nil
  then show ?case by simp
next
  case (Cons row rest)
  obtain label kws where row: "row = (label, kws)" by (cases row)
  show ?case
  proof (cases i)
    case 0
    with Cons.prems row show ?thesis by simp
  next
    case (Suc n)
    from Cons.prems(3) Suc have "\<not> keyword_loop (snd ((row # rest) ! 0)) t" by blast
    then have no: "\<not> keyword_loop kws t" using row by simp
    have later: "\<forall>j < n. \<not> keyword_loop (snd (rest ! j)) t"
    proof (intro allI impI)
      fix j assume "j < n"
      then have "Suc j < i" using Suc by simp
      with Cons.prems(3) have "\<not> keyword_loop (snd ((row # rest) ! Suc j)) t" by blast
      then show "\<not> keyword_loop (snd (rest ! j)) t" by simp
    qed
    have "n < length rest" using Cons.prems(1) Suc by simp
    moreover have "keyword_loop (snd (rest ! n)) t" using Cons.prems(2) Suc by simp
    ultimately have "table_loop rest t d = fst (rest ! n)" using later by (rule Cons.IH)
    with no row Suc show ?thesis by simp
  qed
qed

lemma table_loop_default:
  "(\<forall>i < length tbl. \<not> keyword_loop (snd (tbl ! i)) t) \<Longrightarrow> table_loop tbl t d = d"
proof (induction tbl)
  case Nil
  then show ?case by simp
next
  case (Cons row rest)
  obtain label kws where row: "row = (label, kws)" by (cases row)
  from Cons.prems have "\<not> keyword_loop (snd ((row # rest) ! 0)) t" by blast
  then have no: "\<not> keyword_loop kws t" using row by simp
  have "\<forall>i < length rest. \<not> keyword_loop (snd (rest ! i)) t"
  proof (intro allI impI)
    fix i assume "i < length rest"
    then have "Suc i < length (row # rest)" by simp
    with Cons.prems have "\<not> keyword_loop (snd ((row # rest) ! Suc i)) t" by blast
    then show "\<not> keyword_loop (snd (rest ! i)) t" by simp
  qed
  then have "table_loop rest t d = d" by (rule Cons.IH)
  with no row show ?case by simp
qed


lemma occurs_in_code: "occurs_in k t = str_in k t"
  by (simp add: occurs_in_def str_in_iff)

lemma keyword_loop_occurs: "keyword_loop kws t \<longleftrightarrow> (\<exists>k \<in> set kws. occurs_in k t)"
  by (simp add: keyword_loop_iff occurs_in_code)

text \<open>
  Claim C1. \<open>categorize_article\<close> lowercases \<open>title + " " + content\<close> and returns the
  first category, in the declared order of \<open>CATEGORY_KEYWORDS\<close>, one of whose keywords
  occurs in that text: a category with a keyword in the text and no keyword of an
  earlier category in the text is the result. When no keyword of any category occurs,
  the result is \<open>industry-news\<close>.
\<close>

theorem categorize_article_first_match:
  fixes title content :: string
  defines "t \<equiv> lower (title @ '' '' @ content)"
  shows "(\<forall>i < length CATEGORY_KEYWORDS.
            (\<exists>k \<in> set (snd (CATEGORY_KEYWORDS ! i)). occurs_in k t) \<and>
            (\<forall>j < i. \<forall>k \<in> set (snd (CATEGORY_KEYWORDS ! j)). \<not> occurs_in k t)
            \<longrightarrow> categorize_article title content = fst (CATEGORY_KEYWORDS ! i))
       \<and> ((\<forall>i < length CATEGORY_KEYWORDS.
              \<forall>k \<in> set (snd (CATEGORY_KEYWORDS ! i)). \<not> occurs_in k t)
            \<longrightarrow> categorize_article title content = ''industry-news'')"
proof (intro conjI allI impI)
  fix i
  assume i: "i < length CATEGORY_KEYWORDS"
    and h: "(\<exists>k \<in> set (snd (CATEGORY_KEYWORDS ! i)). occurs_in k t) \<and>
            (\<forall>j < i. \<forall>k \<in> set (snd (CATEGORY_KEYWORDS ! j)). \<not> occurs_in k t)"
  from h have "keyword_loop (snd (CATEGORY_KEYWORDS ! i)) t"
    unfolding keyword_loop_occurs by (rule conjunct1)
  moreover from h have "\<forall>j < i. \<not> keyword_loop (snd (CATEGORY_KEYWORDS ! j)) t"
    unfolding keyword_loop_occurs bex_simps by (rule conjunct2)
  ultimately have "table_loop CATEGORY_KEYWORDS t ''industry-news'' = fst (CATEGORY_KEYWORDS ! i)"
    using i by (simp only: table_loop_first)
  then show "categorize_article title content = fst (CATEGORY_KEYWORDS ! i)"
    unfolding categorize_article_def t_def .
next
  assume "\<forall>i < length CATEGORY_KEYWORDS.
              \<forall>k \<in> set (snd (CATEGORY_KEYWORDS ! i)). \<not> occurs_in k t"
  then have "\<forall>i < length CATEGORY_KEYWORDS. \<not> keyword_loop (snd (CATEGORY_KEYWORDS ! i)) t"
    unfolding keyword_loop_occurs bex_simps .
  then have "table_loop CATEGORY_KEYWORDS t ''industry-news'' = ''industry-news''"
    by (rule table_loop_default)
  then show "categorize_article title content = ''industry-news''"
    unfolding categorize_article_def t_def .
qed


theorem categorize_article_first_match_witness:
  "categorize_article ''LockBit affiliates return'' ''Police said the gang is back.'' = ''ransomware''
   \<and> categorize_article ''Quarterly report'' ''Nothing to see.'' = ''industry-news''"
proof -
  let ?t1 = "lower (''LockBit affiliates return'' @ '' '' @ ''Police said the gang is back.'')"
  let ?t3 = "lower (''Quarterly report'' @ '' '' @ ''Nothing to see.'')"
  have len: "(1::nat) < length CATEGORY_KEYWORDS" by (simp add: CATEGORY_KEYWORDS_def)
  have a1: "\<exists>k \<in> set (snd (CATEGORY_KEYWORDS ! 1)). occurs_in k ?t1"
    unfolding occurs_in_code by code_simp
  have a2: "\<forall>k \<in> set (snd (CATEGORY_KEYWORDS ! 0)). \<not> occurs_in k ?t1"
    unfolding occurs_in_code by code_simp
  have a2': "\<forall>j < 1. \<forall>k \<in> set (snd (CATEGORY_KEYWORDS ! j)). \<not> occurs_in k ?t1"
    using a2 by simp
  have a3: "\<forall>x \<in> set CATEGORY_KEYWORDS. \<forall>k \<in> set (snd x). \<not> occurs_in k ?t3"
    unfolding occurs_in_code by code_simp
  have a3': "\<forall>i < length CATEGORY_KEYWORDS.
              \<forall>k \<in> set (snd (CATEGORY_KEYWORDS ! i)). \<not> occurs_in k ?t3"
    using a3 nth_mem by blast
  have f1: "fst (CATEGORY_KEYWORDS ! 1) = ''ransomware''" by (simp add: CATEGORY_KEYWORDS_def)
  note T1 = categorize_article_first_match [of "''LockBit affiliates return''" "''Police said the gang is back.''"]
  note T3 = categorize_article_first_match [of "''Quarterly report''" "''Nothing to see.''"]
  have "categorize_article ''LockBit affiliates return'' ''Police said the gang is back.'' = fst (CATEGORY_KEYWORDS ! 1)"
    by (rule conjunct1 [OF T1, THEN spec, THEN mp, THEN mp, OF len conjI [OF a1 a2']])
  then have r1: "categorize_article ''LockBit affiliates return'' ''Police said the gang is back.'' = ''ransomware''"
    by (simp only: f1)
  have r3: "categorize_article ''Quarterly report'' ''Nothing to see.'' = ''industry-news''"
    by (rule conjunct2 [OF T3, THEN mp, OF a3'])
  from r1 r3 show ?thesis by (rule conjI)
qed

subsection \<open>Orchestrator\<close>

lemma post_to_webhook_cases:
  "snd (post_to_webhook lib urlopen now1 now2 a) =
     (case urlopen (fst (post_to_webhook lib urlopen now1 now2 a)) of
        RaisesURLError \<Rightarrow> Inr False
      | RaisesOther \<Rightarrow> Inl OtherException
      | Responds code NotJSON \<Rightarrow> Inl JSONDecodeError
      | Responds code (JSON (JObject members)) \<Rightarrow> Inr True
      | Responds code (JSON _) \<Rightarrow> Inl AttributeError)"
  by (simp add: post_to_webhook_def Let_def split: urlopen_outcome.splits body.splits json.splits)

lemma process_item_None:
  "parse_rss_item item name = None \<Longrightarrow> process_item lib world name st item = Inr st"
  by (simp add: process_item_def)

lemma process_item_Some:
  assumes "parse_rss_item item name = Some a"
    and "process_item lib world name st item = Inr st'"
  shows "total_articles st' = total_articles st + 1
       \<and> (success_count st' = success_count st \<or> success_count st' = success_count st + 1)
       \<and> (\<exists>req. sent st' = sent st @ [req])"
  using assms
  by (auto simp: process_item_def Let_def split: prod.splits sum.splits if_splits)

lemma process_item_step:
  assumes "process_item lib world name st item = Inr st'"
  shows "total_articles st' = total_articles st + (if parse_rss_item item name = None then 0 else 1)
       \<and> success_count st \<le> success_count st'
       \<and> success_count st' - success_count st \<le> total_articles st' - total_articles st"
proof (cases "parse_rss_item item name")
  case None
  with assms have "st' = st" by (simp add: process_item_None)
  with None show ?thesis by simp
next
  case (Some a)
  from process_item_Some [OF Some assms] Some show ?thesis by auto
qed

lemma process_item_ok:
  "counters_ok st \<Longrightarrow> process_item lib world name st item = Inr st' \<Longrightarrow> counters_ok st'"
  using process_item_step [of lib world name st item st']
  by (auto simp: counters_ok_def split: if_splits)

lemma item_loop_ok:
  "counters_ok st \<Longrightarrow> item_loop lib world name st items = Inr st' \<Longrightarrow> counters_ok st'"
proof (induction items arbitrary: st)
  case Nil
  then show ?case by simp
next
  case (Cons item items)
  then show ?case
    by (auto split: sum.splits dest: process_item_ok)
qed

lemma item_states_ok:
  "counters_ok st \<Longrightarrow> s \<in> set (item_states lib world name st items) \<Longrightarrow> counters_ok s"
proof (induction items arbitrary: st)
  case Nil
  then show ?case by simp
next
  case (Cons item items)
  show ?case
  proof (cases "process_item lib world name st item")
    case (Inl e)
    with Cons.prems show ?thesis by simp
  next
    case (Inr st1)
    with Cons.prems(1) have ok1: "counters_ok st1" by (rule process_item_ok)
    from Cons.prems(2) Inr have "s = st1 \<or> s \<in> set (item_states lib world name st1 items)"
      by simp
    then show ?thesis using ok1 Cons.IH [OF ok1] by blast
  qed
qed

lemma process_feed_ok:
  "counters_ok st \<Longrightarrow> process_feed lib world st feed_info = Inr st' \<Longrightarrow> counters_ok st'"
  by (auto simp: process_feed_def split: sum.splits option.splits dest: item_loop_ok)

lemma feed_states_ok:
  "counters_ok st \<Longrightarrow> s \<in> set (feed_states lib world st feeds) \<Longrightarrow> counters_ok s"
proof (induction feeds arbitrary: st)
  case Nil
  then show ?case by simp
next
  case (Cons feed_info feeds)
  show ?case
  proof (cases "fetch_rss_feed world (fst feed_info)")
    case (Inl e)
    with Cons.prems show ?thesis by simp
  next
    case (Inr fetched)
    show ?thesis
    proof (cases fetched)
      case None
      with Inr Cons.prems have "s \<in> set (feed_states lib world st feeds)" by simp
      with Cons.prems(1) show ?thesis by (rule Cons.IH)
    next
      case (Some root)
      let ?items = "take 10 (discover_items root)"
      have feed: "process_feed lib world st feed_info = item_loop lib world (snd feed_info) st ?items"
        using Inr Some by (simp add: process_feed_def)
      show ?thesis
      proof (cases "process_feed lib world st feed_info")
        case (Inl e)
        with Cons.prems(2) \<open>fetch_rss_feed world (fst feed_info) = Inr fetched\<close> Some
        have "s \<in> set (item_states lib world (snd feed_info) st ?items)" by simp
        with Cons.prems(1) show ?thesis by (rule item_states_ok)
      next
        case (Inr st1)
        with Cons.prems(2) \<open>fetch_rss_feed world (fst feed_info) = Inr fetched\<close> Some
        have "s \<in> set (item_states lib world (snd feed_info) st ?items)
            \<or> s \<in> set (feed_states lib world st1 feeds)" by simp
        moreover from Cons.prems(1) Inr have "counters_ok st1" by (rule process_feed_ok)
        ultimately show ?thesis
          using item_states_ok [OF Cons.prems(1)] Cons.IH by blast
      qed
    qed
  qed
qed

lemma feed_loop_ok:
  "counters_ok st \<Longrightarrow> feed_loop lib world st feeds = Inr st' \<Longrightarrow> counters_ok st'"
proof (induction feeds arbitrary: st)
  case Nil
  then show ?case by simp
next
  case (Cons feed_info feeds)
  then show ?case
    by (auto split: sum.splits dest: process_feed_ok)
qed

lemma item_loop_total:
  "item_loop lib world name st items = Inr st' \<Longrightarrow>
   total_articles st' =
     total_articles st + int (length (filter (\<lambda>item. parse_rss_item item name \<noteq> None) items))
   \<and> length (sent st') =
     length (sent st) + length (filter (\<lambda>item. parse_rss_item item name \<noteq> None) items)"
proof (induction items arbitrary: st)
  case Nil
  then show ?case by simp
next
  case (Cons item items)
  from Cons.prems obtain st1 where
    one: "process_item lib world name st item = Inr st1"
    and rest: "item_loop lib world name st1 items = Inr st'"
    by (auto split: sum.splits)
  note IH = Cons.IH [OF rest]
  show ?case
  proof (cases "parse_rss_item item name")
    case None
    with one have "st1 = st" by (simp add: process_item_None)
    with IH None show ?thesis by simp
  next
    case (Some a)
    from process_item_Some [OF Some one] obtain req where
      "total_articles st1 = total_articles st + 1" "sent st1 = sent st @ [req]" by blast
    with IH Some show ?thesis by simp
  qed
qed


lemma process_item_sent:
  assumes "parse_rss_item item name = Some a"
    and "process_item lib world name st item = Inr st'"
  shows "sent st' = sent st @ [webhook_request lib world (length (sent st)) a]"
  using assms
  by (auto simp: process_item_def webhook_request_def Let_def
           split: prod.splits sum.splits if_splits)

lemma item_loop_sent:
  "item_loop lib world name st items = Inr st' \<Longrightarrow>
   sent st' = sent st @
     map (\<lambda>(k, a). webhook_request lib world k a)
       (zip [length (sent st) ..< length (sent st) + length items]
            (List.map_filter (\<lambda>item. parse_rss_item item name) items))"
proof (induction items arbitrary: st)
  case Nil
  then show ?case by simp
next
  case (Cons item items)
  from Cons.prems obtain st1 where
    one: "process_item lib world name st item = Inr st1"
    and rest: "item_loop lib world name st1 items = Inr st'"
    by (auto split: sum.splits)
  note IH = Cons.IH [OF rest]
  let ?n = "length (sent st)"
  show ?case
  proof (cases "parse_rss_item item name")
    case None
    with one have st1: "st1 = st" by (simp add: process_item_None)
    have "zip [?n ..< ?n + length (item # items)] (List.map_filter (\<lambda>item. parse_rss_item item name) items)
        = zip [?n ..< ?n + length items] (List.map_filter (\<lambda>item. parse_rss_item item name) items)"
      (is "zip _ ?as = _")
    proof -
      have "length ?as \<le> length items" by (simp add: List.map_filter_def)
      then have "zip ([?n ..< ?n + length items] @ [?n + length items]) ?as
               = zip [?n ..< ?n + length items] ?as"
        by (simp add: zip_append1)
      then show ?thesis by simp
    qed
    with IH None st1 show ?thesis by simp
  next
    case (Some a)
    from process_item_sent [OF Some one]
    have s1: "sent st1 = sent st @ [webhook_request lib world ?n a]" .
    have "[?n ..< ?n + Suc (length items)] = ?n # [Suc ?n ..< ?n + Suc (length items)]"
      by (rule upt_conv_Cons) simp
    then have upt: "[?n ..< ?n + length (item # items)] = ?n # [Suc ?n ..< Suc ?n + length items]"
      by simp
    from IH s1 Some show ?thesis
      unfolding upt by simp
  qed
qed

subsection \<open>The example worlds\<close>

lemma parse_titled_item:
  "parse_rss_item (titled_item t) name =
     Some \<lparr> title = take 500 (strip t), content = [], summary = [],
            category_slug = categorize_article (strip t) [],
            severity = determine_severity (strip t) [],
            tags = generate_tags (strip t), source_url = [], source_name = name,
            cves = extract_cves (strip t @ '' ''), vendors = [], skip_enrichment = False \<rparr>"
  by (simp add: parse_rss_item_def titled_item_def find_child_def present_text_def Let_def)

lemma discover_twelve_items:
  "discover_items twelve_items = map (\<lambda>c. titled_item [c]) ''ABCDEFGHIJKL''"
  by (simp add: discover_items_def findall_descendants_def twelve_items_def titled_item_def)

lemma strip_letter: "\<not> is_space c \<Longrightarrow> strip [c] = [c]"
  by (simp add: strip_def)

lemmas example_defs =
  process_item_def parse_titled_item post_to_webhook_def Let_def example_lib_def
  create_hmac_signature_def first_ok_then_down_def always_ok_def unreachable_def
  fixed_clock_def strip_letter is_space_def initial_state_def

lemma fetch_one_feed:
  "fetch_rss_feed \<lparr> feed_at = one_feed, webhook_at = w, utcnow = c \<rparr>
     ''https://feeds.feedburner.com/TheHackersNews'' = Inr (Some twelve_items)"
  "fetch_rss_feed \<lparr> feed_at = one_feed, webhook_at = w, utcnow = c \<rparr>
     ''https://www.bleepingcomputer.com/feed/'' = Inr None"
  by (simp_all add: fetch_rss_feed_def one_feed_def)

lemma flaky_run:
  "map_sum id (\<lambda>st. (total_articles st, success_count st, map req_data (sent st)))
     (feed_loop example_lib flaky_world initial_state RSS_FEEDS)
   = Inr (10, 1, [''A'', ''B'', ''C'', ''D'', ''E'', ''F'', ''G'', ''H'', ''I'', ''J''])"
  by (simp add: RSS_FEEDS_def process_feed_def flaky_world_def fetch_one_feed
        discover_twelve_items example_defs)

lemma dark_run: "feed_loop lib dark_world initial_state RSS_FEEDS = Inr initial_state"
  by (simp add: RSS_FEEDS_def process_feed_def dark_world_def fetch_rss_feed_def no_feed_def)

text \<open>
  When \<open>main\<close> returns, the exit status follows the claim: it is zero exactly when
  \<open>success_count > 0\<close>; a run that found no article returns 1.
\<close>

lemma exit_status_of_return:
  "exit_status (main lib world) = 0
     \<longleftrightarrow> (\<exists>st rc. main lib world = Inr (st, rc) \<and> 0 < success_count st)"
  by (auto simp: exit_status_def main_def split: sum.splits)

lemma exit_status_examples:
  "exit_status (main example_lib flaky_world) = 0
   \<and> main example_lib dark_world = Inr (initial_state, 1)
   \<and> exit_status (main example_lib dark_world) \<noteq> 0"
proof -
  from flaky_run obtain st where
    st: "feed_loop example_lib flaky_world initial_state RSS_FEEDS = Inr st"
    and "success_count st = 1"
    by (cases "feed_loop example_lib flaky_world initial_state RSS_FEEDS") auto
  then have "main example_lib flaky_world = Inr (st, 0) \<and> 0 < success_count st"
    by (simp add: main_def)
  then have a: "exit_status (main example_lib flaky_world) = 0"
    using exit_status_of_return [of example_lib flaky_world] by blast
  have b: "main example_lib dark_world = Inr (initial_state, 1)"
    by (simp add: main_def dark_run) (simp add: initial_state_def)
  then have "\<not> (\<exists>st rc. main example_lib dark_world = Inr (st, rc) \<and> 0 < success_count st)"
    by (simp add: initial_state_def)
  then have c: "exit_status (main example_lib dark_world) \<noteq> 0"
    using exit_status_of_return [of example_lib dark_world] by blast
  from a b c show ?thesis by blast
qed

text \<open>
  Claim C9. A run can end with \<open>success_count > 0\<close> and an exit status other than zero.
  The feed has twelve items; the webhook answers the first POST with a JSON object and the
  second with status 200 and a body which is not JSON. After the first item both counters
  are 1; at the second, \<open>JSONDecodeError\<close> leaves \<open>post_to_webhook\<close> and \<open>main\<close> uncaught, the
  \<open>return\<close> statement is never reached, and the process exits with status 1.
\<close>

theorem main_crash_after_success:
  "map (\<lambda>s. (total_articles s, success_count s))
     (feed_states example_lib crash_world initial_state RSS_FEEDS) = [(1, 1)]
   \<and> main example_lib crash_world = Inl JSONDecodeError
   \<and> exit_status (main example_lib crash_world) = 1"
proof -
  have run: "main example_lib crash_world = Inl JSONDecodeError"
    by (simp add: main_def RSS_FEEDS_def process_feed_def crash_world_def fetch_one_feed
          discover_twelve_items example_defs ok_then_plain_def answers_plain_ok_def)
  have trace: "map (\<lambda>s. (total_articles s, success_count s))
     (feed_states example_lib crash_world initial_state RSS_FEEDS) = [(1, 1)]"
    by (simp add: RSS_FEEDS_def process_feed_def crash_world_def fetch_one_feed
          discover_twelve_items example_defs ok_then_plain_def answers_plain_ok_def)
  from run trace show ?thesis by (simp add: exit_status_def)
qed

text \<open>
  Claim C10. Both counters start at zero; after every item processed in a run,
  \<open>0 \<le> success_count \<le> total_articles\<close>; and one item adds exactly one to
  \<open>total_articles\<close> when it yields an article and nothing otherwise, and adds at most one
  to \<open>success_count\<close>, and only when it added one to \<open>total_articles\<close>.
\<close>

theorem counters_invariant:
  "total_articles initial_state = 0 \<and> success_count initial_state = 0
   \<and> (\<forall>s \<in> set (feed_states lib world initial_state RSS_FEEDS).
         0 \<le> success_count s \<and> success_count s \<le> total_articles s)
   \<and> (\<forall>st rc. main lib world = Inr (st, rc) \<longrightarrow>
         0 \<le> success_count st \<and> success_count st \<le> total_articles st)
   \<and> (\<forall>name st item st'. process_item lib world name st item = Inr st' \<longrightarrow>
         total_articles st' =
           total_articles st + (if parse_rss_item item name = None then 0 else 1)
         \<and> success_count st \<le> success_count st'
         \<and> success_count st' - success_count st \<le> total_articles st' - total_articles st)"
proof -
  have init: "counters_ok initial_state"
    by (simp add: counters_ok_def initial_state_def)
  have trace: "\<forall>s \<in> set (feed_states lib world initial_state RSS_FEEDS).
         0 \<le> success_count s \<and> success_count s \<le> total_articles s"
    using feed_states_ok [OF init] unfolding counters_ok_def by blast
  have final: "\<forall>st rc. main lib world = Inr (st, rc) \<longrightarrow>
         0 \<le> success_count st \<and> success_count st \<le> total_articles st"
  proof (intro allI impI)
    fix st rc
    assume "main lib world = Inr (st, rc)"
    then have "feed_loop lib world initial_state RSS_FEEDS = Inr st"
      by (auto simp: main_def split: sum.splits)
    with init have "counters_ok st" by (rule feed_loop_ok)
    then show "0 \<le> success_count st \<and> success_count st \<le> total_articles st"
      by (simp add: counters_ok_def)
  qed
  have step: "\<forall>name st item st'. process_item lib world name st item = Inr st' \<longrightarrow>
         total_articles st' =
           total_articles st + (if parse_rss_item item name = None then 0 else 1)
         \<and> success_count st \<le> success_count st'
         \<and> success_count st' - success_count st \<le> total_articles st' - total_articles st"
    using process_item_step by blast
  have z1: "total_articles initial_state = 0" and z2: "success_count initial_state = 0"
    by (simp_all add: initial_state_def)
  show ?thesis
    by (rule conjI [OF z1 conjI [OF z2 conjI [OF trace conjI [OF final step]]]])
qed

lemma flaky_states:
  "map (\<lambda>s. (total_articles s, success_count s))
     (feed_states example_lib flaky_world initial_state RSS_FEEDS)
   = [(1, 1), (2, 1), (3, 1), (4, 1), (5, 1), (6, 1), (7, 1), (8, 1), (9, 1), (10, 1)]"
  by (simp add: RSS_FEEDS_def process_feed_def flaky_world_def fetch_one_feed
        discover_twelve_items example_defs)

theorem counters_invariant_witness:
  "map (\<lambda>s. (total_articles s, success_count s))
     (feed_states example_lib flaky_world initial_state RSS_FEEDS)
   = [(1, 1), (2, 1), (3, 1), (4, 1), (5, 1), (6, 1), (7, 1), (8, 1), (9, 1), (10, 1)]
   \<and> list_all (\<lambda>s. 0 \<le> success_count s \<and> success_count s \<le> total_articles s)
       (feed_states example_lib flaky_world initial_state RSS_FEEDS)"
proof -
  have "\<forall>s \<in> set (feed_states example_lib flaky_world initial_state RSS_FEEDS).
         0 \<le> success_count s \<and> success_count s \<le> total_articles s"
    using counters_invariant [of example_lib flaky_world] by (elim conjE)
  then have "list_all (\<lambda>s. 0 \<le> success_count s \<and> success_count s \<le> total_articles s)
       (feed_states example_lib flaky_world initial_state RSS_FEEDS)"
    by (simp only: list_all_iff)
  with flaky_states show ?thesis by (rule conjI)
qed

text \<open>
  Claim C8. The items of a feed document are the \<open>item\<close> elements in document order, and the
  Atom entries only when there is no \<open>item\<close>. Only the first ten of them are processed, in
  that order: the requests sent for a feed are those for the articles of its first ten
  items, so a feed adds at most ten to \<open>total_articles\<close>.
\<close>

theorem feed_item_cap:
  assumes "process_feed lib world st feed_info = Inr st'"
  shows "total_articles st \<le> total_articles st' \<and> total_articles st' \<le> total_articles st + 10
       \<and> (\<forall>root. fetch_rss_feed world (fst feed_info) = Inr (Some root) \<longrightarrow>
            discover_items root =
              (if findall_descendants ''item'' root = []
               then findall_descendants ''{http://www.w3.org/2005/Atom}entry'' root
               else findall_descendants ''item'' root)
          \<and> total_articles st' = total_articles st +
              int (length (List.map_filter (\<lambda>item. parse_rss_item item (snd feed_info))
                             (take 10 (discover_items root))))
          \<and> sent st' = sent st @
              map (\<lambda>(k, a). webhook_request lib world k a)
                (zip [length (sent st) ..< length (sent st) + 10]
                   (List.map_filter (\<lambda>item. parse_rss_item item (snd feed_info))
                      (take 10 (discover_items root)))))"
proof (cases "fetch_rss_feed world (fst feed_info)")
  case (Inl e)
  with assms show ?thesis by (simp add: process_feed_def)
next
  case (Inr fetched)
  show ?thesis
  proof (cases fetched)
    case None
    with Inr assms have "st' = st" by (simp add: process_feed_def)
    with Inr None show ?thesis by simp
  next
    case (Some root)
    let ?items = "take 10 (discover_items root)"
    let ?as = "List.map_filter (\<lambda>item. parse_rss_item item (snd feed_info)) ?items"
    from assms Inr Some
    have loop: "item_loop lib world (snd feed_info) st ?items = Inr st'"
      by (simp add: process_feed_def)
    have len: "length ?as = length (filter (\<lambda>item. parse_rss_item item (snd feed_info) \<noteq> None) ?items)"
      by (simp add: List.map_filter_def)
    have "length ?as \<le> length (filter (\<lambda>item. parse_rss_item item (snd feed_info) \<noteq> None) ?items)"
      using len by simp
    also have "\<dots> \<le> length ?items" by (rule length_filter_le)
    finally have le: "length ?as \<le> length ?items" .
    have le10: "length ?as \<le> 10" using le by simp
    from item_loop_total [OF loop] len
    have total: "total_articles st' = total_articles st + int (length ?as)" by simp
    have "zip [length (sent st) ..< length (sent st) + length ?items] ?as
        = zip [length (sent st) ..< length (sent st) + 10] ?as"
    proof -
      let ?n = "length (sent st)" and ?L = "length ?items"
      have "?L \<le> 10" by simp
      have "[?n ..< (?n + ?L) + (10 - ?L)] = [?n ..< ?n + ?L] @ [?n + ?L ..< (?n + ?L) + (10 - ?L)]"
        by (rule upt_add_eq_append) simp
      moreover have "(?n + ?L) + (10 - ?L) = ?n + 10" using \<open>?L \<le> 10\<close> by simp
      ultimately have "[?n ..< ?n + 10] = [?n ..< ?n + ?L] @ [?n + ?L ..< ?n + 10]"
        by simp
      then show ?thesis using le by (simp add: zip_append1)
    qed
    with item_loop_sent [OF loop]
    have sent: "sent st' = sent st @ map (\<lambda>(k, a). webhook_request lib world k a)
                (zip [length (sent st) ..< length (sent st) + 10] ?as)"
      by simp
    have A: "total_articles st \<le> total_articles st'" using total by simp
    have B: "total_articles st' \<le> total_articles st + 10" using total le10 by simp
    have C: "\<forall>r. fetch_rss_feed world (fst feed_info) = Inr (Some r) \<longrightarrow>
            discover_items r =
              (if findall_descendants ''item'' r = []
               then findall_descendants ''{http://www.w3.org/2005/Atom}entry'' r
               else findall_descendants ''item'' r)
          \<and> total_articles st' = total_articles st +
              int (length (List.map_filter (\<lambda>item. parse_rss_item item (snd feed_info))
                             (take 10 (discover_items r))))
          \<and> sent st' = sent st @
              map (\<lambda>(k, a). webhook_request lib world k a)
                (zip [length (sent st) ..< length (sent st) + 10]
                   (List.map_filter (\<lambda>item. parse_rss_item item (snd feed_info))
                      (take 10 (discover_items r))))"
    proof (intro allI impI)
      fix r
      assume "fetch_rss_feed world (fst feed_info) = Inr (Some r)"
      with Inr Some have r: "r = root" by simp
      have D: "discover_items root =
              (if findall_descendants ''item'' root = []
               then findall_descendants ''{http://www.w3.org/2005/Atom}entry'' root
               else findall_descendants ''item'' root)"
        by (simp add: discover_items_def Let_def)
      show "discover_items r =
              (if findall_descendants ''item'' r = []
               then findall_descendants ''{http://www.w3.org/2005/Atom}entry'' r
               else findall_descendants ''item'' r)
          \<and> total_articles st' = total_articles st +
              int (length (List.map_filter (\<lambda>item. parse_rss_item item (snd feed_info))
                             (take 10 (discover_items r))))
          \<and> sent st' = sent st @
              map (\<lambda>(k, a). webhook_request lib world k a)
                (zip [length (sent st) ..< length (sent st) + 10]
                   (List.map_filter (\<lambda>item. parse_rss_item item (snd feed_info))
                      (take 10 (discover_items r))))"
        unfolding r by (rule conjI [OF D conjI [OF total sent]])
    qed
    show ?thesis by (rule conjI [OF A conjI [OF B C]])
  qed
qed

theorem feed_item_cap_witness:
  "length (discover_items twelve_items) = 12
   \<and> (\<exists>st'. process_feed example_lib flaky_world initial_state (hd RSS_FEEDS) = Inr st'
          \<and> total_articles st' = 10
          \<and> map req_data (sent st') =
              [''A'', ''B'', ''C'', ''D'', ''E'', ''F'', ''G'', ''H'', ''I'', ''J''])"
proof -
  have len: "length (discover_items twelve_items) = 12"
    by (simp add: discover_twelve_items)
  have run: "map_sum id (\<lambda>st. (total_articles st, map req_data (sent st)))
       (process_feed example_lib flaky_world initial_state (hd RSS_FEEDS))
     = Inr (10, [''A'', ''B'', ''C'', ''D'', ''E'', ''F'', ''G'', ''H'', ''I'', ''J''])"
    by (simp add: RSS_FEEDS_def process_feed_def flaky_world_def fetch_one_feed
          discover_twelve_items example_defs)
  then obtain st' where
    st': "process_feed example_lib flaky_world initial_state (hd RSS_FEEDS) = Inr st'"
    and data: "map req_data (sent st') =
              [''A'', ''B'', ''C'', ''D'', ''E'', ''F'', ''G'', ''H'', ''I'', ''J'']"
    by (cases "process_feed example_lib flaky_world initial_state (hd RSS_FEEDS)") auto
  have fetched: "fetch_rss_feed flaky_world (fst (hd RSS_FEEDS)) = Inr (Some twelve_items)"
    by (simp add: RSS_FEEDS_def flaky_world_def fetch_one_feed)
  have ten: "length (List.map_filter (\<lambda>item. parse_rss_item item (snd (hd RSS_FEEDS)))
                (take 10 (discover_items twelve_items))) = 10"
    by (simp add: discover_twelve_items parse_titled_item)
  note cap = feed_item_cap [OF st', THEN conjunct2, THEN conjunct2, THEN spec, THEN mp,
      OF fetched]
  from cap have "total_articles st' = total_articles initial_state +
      int (length (List.map_filter (\<lambda>item. parse_rss_item item (snd (hd RSS_FEEDS)))
                (take 10 (discover_items twelve_items))))"
    by (elim conjE)
  with ten have "total_articles st' = 10" by (simp add: initial_state_def)
  with st' data have "\<exists>st'. process_feed example_lib flaky_world initial_state (hd RSS_FEEDS) = Inr st'
          \<and> total_articles st' = 10
          \<and> map req_data (sent st') =
              [''A'', ''B'', ''C'', ''D'', ''E'', ''F'', ''G'', ''H'', ''I'', ''J'']"
    by (intro exI [of _ st'] conjI)
  with len show ?thesis by (rule conjI)
qed

subsection \<open>Webhook publisher\<close>

lemma post_to_webhook_True:
  "snd (post_to_webhook lib urlopen now1 now2 a) = Inr True \<longleftrightarrow>
     (\<exists>code members. urlopen (fst (post_to_webhook lib urlopen now1 now2 a))
                        = Responds code (JSON (JObject members)))"
  by (simp add: post_to_webhook_cases split: urlopen_outcome.splits body.splits json.splits)

lemma post_to_webhook_False:
  "snd (post_to_webhook lib urlopen now1 now2 a) = Inr False \<longleftrightarrow>
     urlopen (fst (post_to_webhook lib urlopen now1 now2 a)) = RaisesURLError"
  by (simp add: post_to_webhook_cases split: urlopen_outcome.splits body.splits json.splits)

text \<open>
  Claim C3. A request that the webhook answers with status 200 and a body which is not
  JSON has completed without any transport error, yet \<open>post_to_webhook\<close> does not return:
  \<open>json.loads\<close> raises \<open>JSONDecodeError\<close>, which \<open>except URLError\<close> does not catch, and the
  exception ends the run.
\<close>

theorem post_to_webhook_plain_ok:
  "answers_plain_ok
     (fst (post_to_webhook example_lib answers_plain_ok (fixed_clock 0) (fixed_clock 1)
             example_article)) = Responds 200 NotJSON
   \<and> snd (post_to_webhook example_lib answers_plain_ok (fixed_clock 0) (fixed_clock 1)
            example_article) = Inl JSONDecodeError
   \<and> main example_lib plain_world = Inl JSONDecodeError"
proof -
  have "main example_lib plain_world = Inl JSONDecodeError"
    by (simp add: main_def RSS_FEEDS_def process_feed_def plain_world_def fetch_one_feed
          discover_twelve_items example_defs answers_plain_ok_def)
  then show ?thesis
    by (simp add: post_to_webhook_def Let_def answers_plain_ok_def)
qed

text \<open>
  Claim C4, as amended. The request carries the headers \<open>Content-Type: application/json\<close>
  and \<open>X-N8N-Signature\<close>, the value of the latter being \<open>sha256=\<close> followed by the hex digest
  of the HMAC-SHA256, keyed with \<open>WEBHOOK_SECRET\<close>, of the bytes sent as the body, which are
  the serialized payload. There is no header named \<open>X-Signature\<close>.
\<close>

theorem webhook_request_signature:
  "req_method (fst (post_to_webhook lib urlopen now1 now2 a)) = ''POST''
   \<and> req_url (fst (post_to_webhook lib urlopen now1 now2 a)) = WEBHOOK_URL
   \<and> req_data (fst (post_to_webhook lib urlopen now1 now2 a)) =
       json_dumps lib \<lparr> event_type = ''article.created'', data = a,
                         metadata = \<lparr> workflow_id = ''rss-fetcher'', execution_id = now1,
                                      timestamp = now2 \<rparr> \<rparr>
   \<and> map fst (req_headers (fst (post_to_webhook lib urlopen now1 now2 a))) =
       [''Content-Type'', ''X-N8N-Signature'']
   \<and> map_of (req_headers (fst (post_to_webhook lib urlopen now1 now2 a))) ''Content-Type'' =
       Some ''application/json''
   \<and> map_of (req_headers (fst (post_to_webhook lib urlopen now1 now2 a))) ''X-N8N-Signature'' =
       Some (''sha256='' @ hmac_sha256_hexdigest lib WEBHOOK_SECRET
               (req_data (fst (post_to_webhook lib urlopen now1 now2 a))))"
  by (simp add: post_to_webhook_def Let_def create_hmac_signature_def)

theorem webhook_request_signature_witness:
  "map_of (req_headers (fst (post_to_webhook example_lib (always_ok 0) (fixed_clock 0)
       (fixed_clock 1) example_article))) ''X-N8N-Signature'' =
     Some ''sha256=dev_webhook_secret_localPatch now''"
  using webhook_request_signature [of example_lib "always_ok 0" "fixed_clock 0" "fixed_clock 1"
      example_article]
  by (simp add: example_lib_def WEBHOOK_SECRET_def example_article_def)

theorem no_x_signature_header:
  "map_of (req_headers (fst (post_to_webhook example_lib (always_ok 0) (fixed_clock 0)
       (fixed_clock 1) example_article))) ''X-Signature'' = None"
  by (simp add: post_to_webhook_def Let_def)

subsection \<open>Article extractor\<close>

lemma parse_rss_item_None_iff:
  "parse_rss_item item name = None \<longleftrightarrow>
     (case find_child ''title'' item of None \<Rightarrow> True | Some te \<Rightarrow> elem_text te = None)"
  by (simp add: parse_rss_item_def Let_def split: option.splits)

lemma parse_rss_item_title:
  assumes "find_child ''title'' item = Some te" and "elem_text te = Some t"
  shows "\<exists>a. parse_rss_item item name = Some a \<and> title a = take 500 (strip t)"
  using assms by (simp add: parse_rss_item_def Let_def)

text \<open>
  Claim C2, as amended. \<open>parse_rss_item\<close> returns no article exactly when the item has no
  \<open>title\<close> child or the text of that child is \<open>None\<close>; then the item leaves the state of
  the run as it is. Every item whose \<open>title\<close> has a text yields an article, whose title is
  the text without the white space at its ends (that of \<open>str.strip\<close>, U+0085 and U+00A0
  included), cut to 500 characters.
\<close>

theorem parse_rss_item_gate:
  "(parse_rss_item item name = None \<longleftrightarrow>
      (case find_child ''title'' item of None \<Rightarrow> True | Some te \<Rightarrow> elem_text te = None))
   \<and> (parse_rss_item item name = None \<longrightarrow> process_item lib world name st item = Inr st)
   \<and> (\<forall>te t. find_child ''title'' item = Some te \<and> elem_text te = Some t \<longrightarrow>
         (\<exists>a. parse_rss_item item name = Some a \<and> title a = take 500 (strip t)))"
  using parse_rss_item_None_iff [of item name] process_item_None [of item name lib world st]
    parse_rss_item_title [of item _ _ name]
  by blast

theorem parse_rss_item_gate_witness:
  "parse_rss_item untitled_item ''BleepingComputer'' = None
   \<and> process_item example_lib good_world ''BleepingComputer'' initial_state untitled_item
       = Inr initial_state
   \<and> (\<exists>a. parse_rss_item (titled_item ([CHR 0xA0] @ '' Patch now '' @ [CHR 0x85]))
               ''BleepingComputer'' = Some a
          \<and> title a = ''Patch now'')"
proof -
  let ?raw = "[CHR 0xA0] @ '' Patch now '' @ [CHR 0x85]"
  note gate = parse_rss_item_gate [of untitled_item "''BleepingComputer''" example_lib
      good_world initial_state]
  have "find_child ''title'' untitled_item = None"
    by (simp add: find_child_def untitled_item_def)
  with gate have none: "parse_rss_item untitled_item ''BleepingComputer'' = None"
    by simp
  with gate have same:
    "process_item example_lib good_world ''BleepingComputer'' initial_state untitled_item
       = Inr initial_state"
    by blast
  have "find_child ''title'' (titled_item ?raw) = Some (Element ''title'' (Some ?raw) [])
      \<and> elem_text (Element ''title'' (Some ?raw) []) = Some ?raw"
    by (simp add: find_child_def titled_item_def)
  with parse_rss_item_gate [of "titled_item ?raw" "''BleepingComputer''" example_lib
      good_world initial_state]
  have "\<exists>a. parse_rss_item (titled_item ?raw) ''BleepingComputer'' = Some a
          \<and> title a = take 500 (strip ?raw)"
    by blast
  moreover have "take 500 (strip ?raw) = ''Patch now''"
    by (simp add: strip_def is_space_def)
  ultimately show ?thesis using none same by simp
qed

theorem blank_title_yields_article:
  "spec_title_absent_or_empty blank_title_item
   \<and> map_option title (parse_rss_item blank_title_item ''The Hacker News'') = Some []
   \<and> spec_title_absent_or_empty empty_title_item
   \<and> map_option title (parse_rss_item empty_title_item ''The Hacker News'') = Some []"
  by (simp add: spec_title_absent_or_empty_def blank_title_item_def empty_title_item_def
        parse_rss_item_def find_child_def Let_def strip_def is_space_def)

text \<open>Sanitizing, step by step: how each pass treats plain text, a marker, a tag.\<close>

lemma remove_cdata_Nil: "remove_cdata [] = []"
  by (simp add: remove_cdata.simps [of "[]"])




lemma remove_cdata_close: "remove_cdata ('']]>'' @ s) = remove_cdata s"
  by (subst remove_cdata.simps) simp


lemma remove_tags_Nil: "remove_tags [] = []"
  by (simp add: remove_tags.simps [of "[]"])








lemma strip_Nil: "strip [] = []"
  by (simp add: strip_def)

lemma sanitize_Nil: "sanitize [] = []"
  by (simp add: sanitize_def strip_Nil remove_cdata_Nil remove_tags_Nil)















subsection \<open>CVE identifiers\<close>

lemma table_lookup:
  "(case map_of tbl a of Some l \<Rightarrow> l | None \<Rightarrow> a) = b \<Longrightarrow> b = a \<or> (a, b) \<in> set tbl"
  by (auto split: option.splits dest: map_of_SomeD)

lemma lower_char_cases:
  "lower_char a = b \<Longrightarrow>
     b = a \<or> (a, b) \<in> set lower_table"
  unfolding lower_char_def by (rule table_lookup)

lemma lower_char_eq_c: "lower_char a = CHR ''c'' \<Longrightarrow> a = CHR ''c'' \<or> a = CHR ''C''"
  by (drule lower_char_cases) (auto simp: char_tables)

lemma lower_char_eq_v: "lower_char a = CHR ''v'' \<Longrightarrow> a = CHR ''v'' \<or> a = CHR ''V''"
  by (drule lower_char_cases) (auto simp: char_tables)

lemma lower_char_eq_e: "lower_char a = CHR ''e'' \<Longrightarrow> a = CHR ''e'' \<or> a = CHR ''E''"
  by (drule lower_char_cases) (auto simp: char_tables)

lemma lower_char_eq_hyphen: "lower_char a = CHR ''-'' \<Longrightarrow> a = CHR ''-''"
  by (drule lower_char_cases) (auto simp: char_tables)

lemma digits_fixed:
  "\<forall>c \<in> set ''0123456789''. lower_char c = c \<and> upper_char c = c \<and> c \<noteq> CHR ''c''"
  by code_simp

lemma digit_fixed:
  "is_digit c \<Longrightarrow> lower_char c = c \<and> upper_char c = c \<and> c \<noteq> CHR ''c''"
  unfolding is_digit_def using digits_fixed by blast

lemma map_eq_four:
  "map f l = [w, x, y, z] \<Longrightarrow>
     \<exists>a b c d. l = [a, b, c, d] \<and> f a = w \<and> f b = x \<and> f c = y \<and> f d = z"
  by (auto simp: map_eq_Cons_conv)

lemma upper_char_c: "a = CHR ''c'' \<or> a = CHR ''C'' \<Longrightarrow> upper_char a = CHR ''C''"
  by (erule disjE) (simp_all add: char_tables)

lemma upper_char_v: "a = CHR ''v'' \<or> a = CHR ''V'' \<Longrightarrow> upper_char a = CHR ''V''"
  by (erule disjE) (simp_all add: char_tables)

lemma upper_char_e: "a = CHR ''e'' \<or> a = CHR ''E'' \<Longrightarrow> upper_char a = CHR ''E''"
  by (erule disjE) (simp_all add: char_tables)

lemma upper_char_hyphen: "upper_char (CHR ''-'') = CHR ''-''"
  by (simp add: char_tables)

lemma upper_cve:
  assumes "lower l = ''cve-''"
  shows "upper l = ''CVE-''"
proof -
  from assms have "map lower_char l = [CHR ''c'', CHR ''v'', CHR ''e'', CHR ''-'']"
    by (simp add: lower_def)
  then obtain a b c d where l: "l = [a, b, c, d]"
    and a: "lower_char a = CHR ''c''" and b: "lower_char b = CHR ''v''"
    and c: "lower_char c = CHR ''e''" and d: "lower_char d = CHR ''-''"
    using map_eq_four by blast
  have "upper_char a = CHR ''C''" by (rule upper_char_c [OF lower_char_eq_c [OF a]])
  moreover have "upper_char b = CHR ''V''" by (rule upper_char_v [OF lower_char_eq_v [OF b]])
  moreover have "upper_char c = CHR ''E''" by (rule upper_char_e [OF lower_char_eq_e [OF c]])
  moreover have "upper_char d = CHR ''-''"
    using lower_char_eq_hyphen [OF d] upper_char_hyphen by simp
  ultimately show ?thesis using l by (simp add: upper_def)
qed

lemma upper_digits: "list_all is_digit y \<Longrightarrow> upper y = y"
  by (induction y) (simp_all add: upper_def digit_fixed)

lemma lower_length [simp]: "length (lower s) = length s"
  by (simp add: lower_def)

lemma lower_append: "lower (a @ b) = lower a @ lower b"
  by (simp add: lower_def)

lemma match_cve_iff:
  "match_cve s = Some m \<longleftrightarrow> (\<exists>r. s = m @ r \<and> cve_pattern m \<and> takeWhile is_digit r = [])"
proof
  assume "match_cve s = Some m"
  then have l: "lower (take 4 s) = ''cve-''"
    and y: "length (take 4 (drop 4 s)) = 4" "list_all is_digit (take 4 (drop 4 s))"
    and h: "take 1 (drop 8 s) = ''-''"
    and n: "takeWhile is_digit (drop 9 s) \<noteq> []"
    and m: "m = take 9 s @ takeWhile is_digit (drop 9 s)"
    by (simp_all add: match_cve_def Let_def split: if_splits)
  let ?n = "takeWhile is_digit (drop 9 s)" and ?r = "dropWhile is_digit (drop 9 s)"
  have nine: "take 9 s = take 4 s @ take 4 (drop 4 s) @ take 1 (drop 8 s)"
  proof -
    have "take (4 + 5) s = take 4 s @ take 5 (drop 4 s)" by (rule take_add)
    moreover have "take (4 + 1) (drop 4 s) = take 4 (drop 4 s) @ take 1 (drop 4 (drop 4 s))"
      by (rule take_add)
    ultimately show ?thesis by simp
  qed
  have "s = take 9 s @ drop 9 s" by simp
  also have "drop 9 s = ?n @ ?r" by simp
  finally have s: "s = m @ ?r" using m by simp
  have "list_all is_digit ?n"
    by (simp add: list_all_iff) (meson set_takeWhileD)
  with l y h n have "cve_pattern m"
    unfolding cve_pattern_def m nine
    by (intro exI [of _ "take 4 s"] exI [of _ "take 4 (drop 4 s)"] exI [of _ ?n]) simp
  moreover have "takeWhile is_digit ?r = []"
    unfolding takeWhile_eq_Nil_iff using hd_dropWhile [of is_digit "drop 9 s"] by blast
  ultimately show "\<exists>r. s = m @ r \<and> cve_pattern m \<and> takeWhile is_digit r = []"
    using s by blast
next
  assume "\<exists>r. s = m @ r \<and> cve_pattern m \<and> takeWhile is_digit r = []"
  then obtain r l y n where s: "s = m @ r" and r: "takeWhile is_digit r = []"
    and m: "m = l @ y @ ''-'' @ n" and l: "lower l = ''cve-''"
    and y: "length y = 4" "list_all is_digit y" and n: "n \<noteq> []" "list_all is_digit n"
    unfolding cve_pattern_def by blast
  from l have "length (lower l) = length ''cve-''" by simp
  then have ll: "length l = 4" by simp
  have s': "s = l @ y @ ''-'' @ n @ r" using s m by simp
  have t4: "take 4 s = l" using ll s' by simp
  have d4: "drop 4 s = y @ ''-'' @ n @ r" using ll s' by simp
  have t44: "take 4 (drop 4 s) = y" using y d4 by simp
  have d8: "drop 8 s = ''-'' @ n @ r"
  proof -
    have "drop (4 + 4) s = drop 4 (drop 4 s)" by (simp add: add.commute)
    then show ?thesis using d4 y by simp
  qed
  have d9: "drop 9 s = n @ r"
  proof -
    have "drop (1 + 8) s = drop 1 (drop 8 s)" by (simp only: drop_drop)
    then show ?thesis using d8 by simp
  qed
  have t9: "take 9 s = l @ y @ ''-''"
  proof -
    have "s = (l @ y @ ''-'') @ (n @ r)" using s' by simp
    moreover have "length (l @ y @ ''-'') = 9" using ll y by simp
    ultimately show ?thesis by (metis append_eq_conv_conj)
  qed
  have tw: "takeWhile is_digit (n @ r) = n"
    using n(2) r by (simp add: list_all_iff)
  show "match_cve s = Some m"
    unfolding match_cve_def Let_def t4 t44 d8 d9 t9 tw
    using l y n m by simp
qed

lemma match_cve_Nil: "match_cve [] = None"
  by (simp add: match_cve_def lower_def)

lemma match_cve_first:
  assumes "match_cve s = Some m"
  shows "s \<noteq> [] \<and> lower_char (hd s) = CHR ''c''"
proof -
  from assms have "lower (take 4 s) = ''cve-''"
    by (simp add: match_cve_def Let_def split: if_splits)
  then have "map lower_char (take 4 s) = [CHR ''c'', CHR ''v'', CHR ''e'', CHR ''-'']"
    by (simp add: lower_def)
  then obtain a b c d where "take 4 s = [a, b, c, d]" and "lower_char a = CHR ''c''"
    using map_eq_four by blast
  then show ?thesis by (cases s) auto
qed

lemma match_cve_rest:
  assumes "match_cve s = Some m"
  shows "m \<noteq> [] \<and> prefix m s \<and> (\<forall>c \<in> set (tl m). lower_char c \<noteq> CHR ''c'')"
proof -
  from assms obtain r l y n where s: "s = m @ r"
    and m: "m = l @ y @ ''-'' @ n" and l: "lower l = ''cve-''"
    and y: "list_all is_digit y" and n: "list_all is_digit n"
    unfolding match_cve_iff cve_pattern_def by blast
  from l have "map lower_char l = [CHR ''c'', CHR ''v'', CHR ''e'', CHR ''-'']"
    by (simp add: lower_def)
  then obtain a b c d where l4: "l = [a, b, c, d]"
    and "lower_char b = CHR ''v''" "lower_char c = CHR ''e''" "lower_char d = CHR ''-''"
    using map_eq_four by blast
  then have bcd: "\<forall>x \<in> set [b, c, d]. lower_char x \<noteq> CHR ''c''" by simp
  have dig: "lower_char x \<noteq> CHR ''c''" if "is_digit x" for x
    using digit_fixed [OF that] by simp
  have hy: "lower_char (CHR ''-'') \<noteq> CHR ''c''" by (simp add: char_tables)
  have tl: "tl m = [b, c, d] @ y @ ''-'' @ n" using m l4 by simp
  have "\<forall>x \<in> set (tl m). lower_char x \<noteq> CHR ''c''"
    unfolding tl using bcd dig hy y n by (auto simp: list_all_iff)
  moreover have "m \<noteq> []" using m l4 by simp
  moreover have "prefix m s" using s by simp
  ultimately show ?thesis by blast
qed

lemma match_cve_no_overlap:
  assumes "match_cve s = Some m" and "0 < i" and "i < length m"
  shows "match_cve (drop i s) = None"
proof (rule ccontr)
  assume "match_cve (drop i s) \<noteq> None"
  then obtain m' where "match_cve (drop i s) = Some m'" by blast
  then have c: "lower_char (hd (drop i s)) = CHR ''c''" and ne: "drop i s \<noteq> []"
    using match_cve_first by blast+
  from match_cve_rest [OF assms(1)] obtain r where s: "s = m @ r"
    and inner: "\<forall>c \<in> set (tl m). lower_char c \<noteq> CHR ''c''"
    by (auto simp: prefix_def)
  from ne have "i < length s" by simp
  then have "hd (drop i s) = s ! i" by (rule hd_drop_conv_nth)
  also have "\<dots> = m ! i" using s assms(3) by (simp add: nth_append)
  also have "\<dots> = tl m ! (i - 1)" using assms(2,3) by (simp add: nth_tl)
  finally have "hd (drop i s) \<in> set (tl m)" using assms(2,3) by simp
  with inner c show False by blast
qed

lemma findall_cve_set: "set (findall_cve s) = {m. \<exists>i. match_cve (drop i s) = Some m}"
proof (induction s rule: findall_cve.induct)
  case (1 s)
  show ?case
  proof (cases "s = []")
    case True
    then show ?thesis by (simp add: findall_cve.simps [of "[]"] match_cve_Nil)
  next
    case False
    show ?thesis
    proof (cases "match_cve s")
      case None
      have "findall_cve s = findall_cve (tl s)"
        using False None by (simp add: findall_cve.simps [of s])
      moreover have "set (findall_cve (tl s)) = {m. \<exists>i. match_cve (drop i (tl s)) = Some m}"
        using False None by (rule "1.IH")
      moreover have "(\<exists>i. match_cve (drop i (tl s)) = Some m) \<longleftrightarrow> (\<exists>j. match_cve (drop j s) = Some m)"
        for m
      proof
        assume "\<exists>i. match_cve (drop i (tl s)) = Some m"
        then obtain i where "match_cve (drop (Suc i) s) = Some m" by (auto simp: drop_Suc)
        then show "\<exists>j. match_cve (drop j s) = Some m" by blast
      next
        assume "\<exists>j. match_cve (drop j s) = Some m"
        then obtain j where j: "match_cve (drop j s) = Some m" by blast
        with None have "j \<noteq> 0" by (cases j) auto
        then obtain i where "j = Suc i" by (cases j) auto
        with j have "match_cve (drop i (tl s)) = Some m" by (simp add: drop_Suc)
        then show "\<exists>i. match_cve (drop i (tl s)) = Some m" by blast
      qed
      ultimately show ?thesis by simp
    next
      case (Some m0)
      have unfold: "findall_cve s = m0 # findall_cve (drop (length m0) s)"
        using False Some by (simp add: findall_cve.simps [of s])
      have IH: "set (findall_cve (drop (length m0) s))
                = {m. \<exists>i. match_cve (drop i (drop (length m0) s)) = Some m}"
        using False Some by (rule "1.IH")
      have eq: "(m = m0 \<or> (\<exists>i. match_cve (drop i (drop (length m0) s)) = Some m))
            \<longleftrightarrow> (\<exists>j. match_cve (drop j s) = Some m)" for m
      proof
        assume "m = m0 \<or> (\<exists>i. match_cve (drop i (drop (length m0) s)) = Some m)"
        then show "\<exists>j. match_cve (drop j s) = Some m"
        proof
          assume "m = m0"
          with Some have "match_cve (drop 0 s) = Some m" by simp
          then show ?thesis by blast
        next
          assume "\<exists>i. match_cve (drop i (drop (length m0) s)) = Some m"
          then obtain i where "match_cve (drop (i + length m0) s) = Some m" by auto
          then show ?thesis by blast
        qed
      next
        assume "\<exists>j. match_cve (drop j s) = Some m"
        then obtain j where j: "match_cve (drop j s) = Some m" by blast
        consider "j = 0" | "0 < j" "j < length m0" | "length m0 \<le> j" by linarith
        then show "m = m0 \<or> (\<exists>i. match_cve (drop i (drop (length m0) s)) = Some m)"
        proof cases
          case 1
          with j Some show ?thesis by simp
        next
          case 2
          with match_cve_no_overlap [OF Some] j show ?thesis by simp
        next
          case 3
          then have "drop j s = drop (j - length m0) (drop (length m0) s)" by simp
          with j show ?thesis by metis
        qed
      qed
      have "set (findall_cve s) = insert m0 (set (findall_cve (drop (length m0) s)))"
        by (simp only: unfold list.set)
      then show ?thesis unfolding IH using eq by blast
    qed
  qed
qed

lemma cve_occurs_iff: "cve_occurs m t \<longleftrightarrow> (\<exists>i. match_cve (drop i t) = Some m)"
proof
  assume "cve_occurs m t"
  then obtain p s where t: "t = p @ m @ s" and "cve_pattern m" "takeWhile is_digit s = []"
    unfolding cve_occurs_def by blast
  then have "match_cve (m @ s) = Some m" unfolding match_cve_iff by blast
  moreover have "drop (length p) t = m @ s" using t by simp
  ultimately show "\<exists>i. match_cve (drop i t) = Some m" by metis
next
  assume "\<exists>i. match_cve (drop i t) = Some m"
  then obtain i r where "drop i t = m @ r" and pat: "cve_pattern m" "takeWhile is_digit r = []"
    unfolding match_cve_iff by blast
  then have "t = take i t @ m @ r" by (metis append_take_drop_id)
  with pat show "cve_occurs m t" unfolding cve_occurs_def by blast
qed

lemma upper_append: "upper (a @ b) = upper a @ upper b"
  by (simp add: upper_def)

lemma cve_pattern_upper:
  assumes "cve_pattern m"
  shows "\<exists>y n. upper m = ''CVE-'' @ y @ ''-'' @ n \<and> length y = 4 \<and> list_all is_digit y
           \<and> n \<noteq> [] \<and> list_all is_digit n"
proof -
  from assms obtain l y n where m: "m = l @ y @ ''-'' @ n" and l: "lower l = ''cve-''"
    and y: "length y = 4" "list_all is_digit y" and n: "n \<noteq> []" "list_all is_digit n"
    unfolding cve_pattern_def by blast
  have "upper ''-'' = ''-''" by (simp add: upper_def upper_char_hyphen)
  then have "upper m = ''CVE-'' @ y @ ''-'' @ n"
    unfolding m upper_append using upper_cve [OF l] upper_digits [OF y(2)] upper_digits [OF n(2)]
    by simp
  with y n show ?thesis by blast
qed

text \<open>
  Claim C5. \<open>extract_cves\<close> returns, without duplicates, exactly the upper-cased
  occurrences in the text of the pattern \<open>CVE-\<close>, four digits, a hyphen and one or more
  digits (as many as there are), the letters matched in either case; every element
  returned is \<open>CVE-\<close>, four digits, a hyphen and at least one digit.
\<close>

theorem extract_cves_exact:
  "distinct (extract_cves t)
   \<and> set (extract_cves t) = upper ` {m. cve_occurs m t}
   \<and> (\<forall>x \<in> set (extract_cves t).
         \<exists>y n. x = ''CVE-'' @ y @ ''-'' @ n \<and> length y = 4 \<and> list_all is_digit y
                \<and> n \<noteq> [] \<and> list_all is_digit n)"
proof -
  have elems: "set (extract_cves t) = upper ` {m. cve_occurs m t}"
    by (simp add: extract_cves_def findall_cve_set cve_occurs_iff)
  have "\<exists>y n. x = ''CVE-'' @ y @ ''-'' @ n \<and> length y = 4 \<and> list_all is_digit y
                \<and> n \<noteq> [] \<and> list_all is_digit n"
    if "x \<in> set (extract_cves t)" for x
  proof -
    from that elems obtain m where "x = upper m" and "cve_occurs m t" by blast
    then show ?thesis using cve_pattern_upper [of m] by (auto simp: cve_occurs_def)
  qed
  with elems show ?thesis by (simp add: extract_cves_def)
qed

theorem extract_cves_exact_witness:
  "extract_cves ''Patch for CVE-2023-1234 and cve-2023-1234 released'' = [''CVE-2023-1234'']
   \<and> upper ` {m. cve_occurs m ''Patch for CVE-2023-1234 and cve-2023-1234 released''}
       = {''CVE-2023-1234''}"
proof -
  have ev: "extract_cves ''Patch for CVE-2023-1234 and cve-2023-1234 released''
              = [''CVE-2023-1234'']"
    by code_simp
  from extract_cves_exact [of "''Patch for CVE-2023-1234 and cve-2023-1234 released''"]
  have "set (extract_cves ''Patch for CVE-2023-1234 and cve-2023-1234 released'')
          = upper ` {m. cve_occurs m ''Patch for CVE-2023-1234 and cve-2023-1234 released''}"
    by (elim conjE)
  then have "upper ` {m. cve_occurs m ''Patch for CVE-2023-1234 and cve-2023-1234 released''}
       = {''CVE-2023-1234''}"
    unfolding ev by simp
  with ev show ?thesis by (rule conjI)
qed

subsection \<open>Tags\<close>

lemma alpha_word: "is_alpha c \<Longrightarrow> is_word c"
  by (simp add: is_word_def)

lemma word_boundary_alt:
  "word_boundary prev nxt \<longleftrightarrow> prev_is_word prev \<noteq> prev_is_word nxt"
  by (simp add: word_boundary_def prev_is_word_def)

lemma prev_is_word_first_char:
  "prev_is_word (first_char r) \<longleftrightarrow> r \<noteq> [] \<and> is_word (hd r)"
  by (cases r) (simp_all add: first_char_def prev_is_word_def)

lemma first_char_drop_takeWhile:
  "prev_is_word (first_char (dropWhile is_alpha s)) \<longleftrightarrow>
     dropWhile is_alpha s \<noteq> [] \<and> is_word (hd (dropWhile is_alpha s))"
  by (rule prev_is_word_first_char)

text \<open>Inside the run of letters there is no word boundary, so no shorter match.\<close>

lemma no_inner_boundary:
  assumes "4 \<le> k" and "k < length (takeWhile is_alpha s)"
  shows "\<not> word_boundary (Some (s ! (k - 1))) (first_char (drop k s))"
proof -
  let ?a = "takeWhile is_alpha s"
  have in_run: "is_alpha (s ! j)" if "j < length ?a" for j
    using that by (metis nth_mem set_takeWhileD takeWhile_nth)
  from assms have "is_alpha (s ! (k - 1))" and "is_alpha (s ! k)"
    by (simp_all add: in_run)
  moreover have "k < length s"
    using assms(2) length_takeWhile_le [of is_alpha s] by simp
  then have "first_char (drop k s) = Some (s ! k)"
    by (simp add: first_char_def Cons_nth_drop_Suc [symmetric])
  ultimately show ?thesis
    by (simp add: word_boundary_alt prev_is_word_def alpha_word)
qed

lemma find_longest:
  assumes "\<forall>k. 4 \<le> k \<and> k < n \<longrightarrow> \<not> P k"
  shows "find P (rev [4 ..< Suc n]) = (if 4 \<le> n \<and> P n then Some n else None)"
proof (cases "4 \<le> n")
  case False
  then show ?thesis by simp
next
  case True
  then have "rev [4 ..< Suc n] = n # rev [4 ..< n]" by simp
  moreover have "find P (rev [4 ..< n]) = None"
    using assms by (simp add: find_None_iff)
  ultimately show ?thesis using True by simp
qed

lemma match_tag_eq:
  "match_tag prev s =
     (if word_boundary prev (first_char s)
         \<and> 4 \<le> length (takeWhile is_alpha s)
         \<and> word_boundary (Some (s ! (length (takeWhile is_alpha s) - 1)))
              (first_char (dropWhile is_alpha s))
      then Some (takeWhile is_alpha s) else None)"
proof -
  let ?n = "length (takeWhile is_alpha s)"
  let ?P = "\<lambda>k. word_boundary (Some (s ! (k - 1))) (first_char (drop k s))"
  have "find ?P (rev [4 ..< Suc ?n]) = (if 4 \<le> ?n \<and> ?P ?n then Some ?n else None)"
    by (rule find_longest) (use no_inner_boundary in blast)
  moreover have "drop ?n s = dropWhile is_alpha s" by (simp add: dropWhile_eq_drop)
  moreover have "take ?n s = takeWhile is_alpha s" by (simp add: takeWhile_eq_take [symmetric])
  ultimately show ?thesis by (simp add: match_tag_def)
qed

lemma takeWhile_word_alpha:
  assumes "dropWhile is_alpha s = [] \<or> \<not> is_word (hd (dropWhile is_alpha s))"
  shows "takeWhile is_word s = takeWhile is_alpha s"
proof -
  let ?a = "takeWhile is_alpha s" and ?r = "dropWhile is_alpha s"
  have "is_word c" if "c \<in> set ?a" for c
    using that by (meson alpha_word set_takeWhileD)
  then have "takeWhile is_word (?a @ ?r) = ?a @ takeWhile is_word ?r"
    by (rule takeWhile_append2)
  moreover have "takeWhile is_word ?r = []" using assms by (simp add: takeWhile_eq_Nil_iff)
  moreover have "?a @ ?r = s" by simp
  ultimately show ?thesis by (metis append_Nil2)
qed

lemma takeWhile_alpha_word:
  assumes "list_all is_alpha (takeWhile is_word s)"
  shows "takeWhile is_alpha s = takeWhile is_word s
       \<and> (dropWhile is_alpha s = [] \<or> \<not> is_word (hd (dropWhile is_alpha s)))"
proof -
  let ?m = "takeWhile is_word s" and ?r = "dropWhile is_word s"
  have r: "?r = [] \<or> \<not> is_word (hd ?r)" using hd_dropWhile [of is_word s] by blast
  then have "?r = [] \<or> \<not> is_alpha (hd ?r)" using alpha_word by blast
  then have "takeWhile is_alpha ?r = []" by (simp add: takeWhile_eq_Nil_iff)
  moreover have "takeWhile is_alpha (?m @ ?r) = ?m @ takeWhile is_alpha ?r"
    by (rule takeWhile_append2) (use assms in \<open>simp add: list_all_iff\<close>)
  moreover have "?m @ ?r = s" by simp
  ultimately have a: "takeWhile is_alpha s = ?m" by (metis append_Nil2)
  then have "length (takeWhile is_alpha s) = length ?m" by simp
  then have "dropWhile is_alpha s = ?r" by (simp add: dropWhile_eq_drop)
  with a r show ?thesis by simp
qed

text \<open>A match is a whole run of word characters that has only letters, at least four.\<close>

lemma match_tag_iff:
  "match_tag prev s = Some m \<longleftrightarrow>
     \<not> prev_is_word prev \<and> m = takeWhile is_word s \<and> good_run m"
proof -
  let ?a = "takeWhile is_alpha s"
  have last_alpha: "is_word (s ! (length ?a - 1))" if "4 \<le> length ?a"
  proof -
    from that have "length ?a - 1 < length ?a" by simp
    then have "is_alpha (s ! (length ?a - 1))"
      by (metis nth_mem set_takeWhileD takeWhile_nth)
    then show ?thesis by (rule alpha_word)
  qed
  have first_alpha: "prev_is_word (first_char s)" if "4 \<le> length ?a"
  proof -
    from that obtain c cs where "s = c # cs" and "is_alpha c"
      by (cases s) (auto split: if_splits)
    then show ?thesis by (simp add: first_char_def prev_is_word_def alpha_word)
  qed
  have all_alpha: "list_all is_alpha ?a"
    by (simp add: list_all_iff) (meson set_takeWhileD)
  show ?thesis
  proof
    assume "match_tag prev s = Some m"
    then have b1: "word_boundary prev (first_char s)" and n: "4 \<le> length ?a"
      and b2: "word_boundary (Some (s ! (length ?a - 1))) (first_char (dropWhile is_alpha s))"
      and m: "m = ?a"
      by (auto simp: match_tag_eq split: if_splits)
    from b1 first_alpha [OF n] have "\<not> prev_is_word prev" by (simp add: word_boundary_alt)
    moreover from b2 last_alpha [OF n]
    have "dropWhile is_alpha s = [] \<or> \<not> is_word (hd (dropWhile is_alpha s))"
      using first_char_drop_takeWhile [of s]
      by (auto simp: word_boundary_alt prev_is_word_def)
    then have "takeWhile is_word s = ?a" by (rule takeWhile_word_alpha)
    ultimately show "\<not> prev_is_word prev \<and> m = takeWhile is_word s \<and> good_run m"
      using m n all_alpha by (simp add: good_run_def)
  next
    assume "\<not> prev_is_word prev \<and> m = takeWhile is_word s \<and> good_run m"
    then have r1: "\<not> prev_is_word prev" and r2: "m = takeWhile is_word s"
      and r3: "4 \<le> length m" and r4: "list_all is_alpha m"
      by (auto simp: good_run_def)
    from r4 have "list_all is_alpha (takeWhile is_word s)" unfolding r2 .
    from takeWhile_alpha_word [OF this]
    have a: "?a = m"
      and e: "dropWhile is_alpha s = [] \<or> \<not> is_word (hd (dropWhile is_alpha s))"
      unfolding r2 by simp_all
    from r3 a have n: "4 \<le> length ?a" by simp
    have "word_boundary prev (first_char s)"
      using r1 first_alpha [OF n] by (simp add: word_boundary_alt)
    moreover have "word_boundary (Some (s ! (length ?a - 1))) (first_char (dropWhile is_alpha s))"
      using e last_alpha [OF n] first_char_drop_takeWhile [of s]
      by (auto simp: word_boundary_alt prev_is_word_def)
    ultimately show "match_tag prev s = Some m"
      using n a by (simp add: match_tag_eq)
  qed
qed

lemma runs_Nil: "runs P [] = []"
  by (simp add: runs.simps [of P "[]"])

lemma runs_skip: "\<not> P c \<Longrightarrow> runs P (c # cs) = runs P cs"
  by (simp add: runs.simps [of P "c # cs"])

lemma runs_take: "P c \<Longrightarrow> runs P (c # cs) = takeWhile P (c # cs) # runs P (dropWhile P cs)"
  by (simp add: runs.simps [of P "c # cs"])

lemma findall_tag_runs:
  "findall_tag prev s =
     filter good_run (runs is_word (if prev_is_word prev then dropWhile is_word s else s))"
proof (induction prev s rule: findall_tag.induct)
  case (1 prev s)
  show ?case
  proof (cases s)
    case Nil
    then show ?thesis by (simp add: findall_tag.simps [of prev "[]"] runs_Nil)
  next
    case (Cons c cs)
    then have ne: "s \<noteq> []" by simp
    show ?thesis
    proof (cases "match_tag prev s")
      case (Some m)
      then have pw: "\<not> prev_is_word prev" and m: "m = takeWhile is_word s" and good: "good_run m"
        unfolding match_tag_iff by blast+
      from good have "m \<noteq> []" by (auto simp: good_run_def)
      then have "last m \<in> set m" by simp
      then have "is_word (last m)" unfolding m by (meson set_takeWhileD)
      then have last: "prev_is_word (Some (last m))" by (simp add: prev_is_word_def)
      from \<open>m \<noteq> []\<close> have c: "is_word c" using Cons m by (auto split: if_splits)
      have rest: "drop (length m) s = dropWhile is_word s"
        unfolding m by (simp add: dropWhile_eq_drop)
      have "findall_tag (Some (last m)) (drop (length m) s)
          = filter good_run (runs is_word
              (if prev_is_word (Some (last m)) then dropWhile is_word (drop (length m) s)
               else drop (length m) s))"
        using ne Some by (rule "1.IH")
      then have IH: "findall_tag (Some (last m)) (drop (length m) s)
          = filter good_run (runs is_word (dropWhile is_word s))"
        using last rest by simp
      have "findall_tag prev s = m # findall_tag (Some (last m)) (drop (length m) s)"
        using ne Some by (simp add: findall_tag.simps [of prev s])
      moreover have "runs is_word s = m # runs is_word (dropWhile is_word s)"
        using c Cons m by (simp add: runs_take)
      ultimately show ?thesis using IH pw good by simp
    next
      case None
      have "findall_tag (Some (hd s)) (tl s)
          = filter good_run (runs is_word
              (if prev_is_word (Some (hd s)) then dropWhile is_word (tl s) else tl s))"
        using ne None by (rule "1.IH")
      then have IH: "findall_tag (Some c) cs
          = filter good_run (runs is_word (if is_word c then dropWhile is_word cs else cs))"
        using Cons by (simp add: prev_is_word_def)
      have "findall_tag prev s = findall_tag (Some (hd s)) (tl s)"
        using ne None by (simp add: findall_tag.simps [of prev s])
      then have step: "findall_tag prev s = findall_tag (Some c) cs"
        using Cons by simp
      show ?thesis
      proof (cases "is_word c")
        case False
        then show ?thesis using step IH Cons by (simp add: runs_skip)
      next
        case True
        show ?thesis
        proof (cases "prev_is_word prev")
          case pw: True
          then show ?thesis using step IH Cons True by simp
        next
          case pw: False
          have "\<not> good_run (takeWhile is_word s)"
            using None pw match_tag_iff [of prev s "takeWhile is_word s"] by simp
          moreover have "runs is_word s = takeWhile is_word s # runs is_word (dropWhile is_word cs)"
            using True Cons by (simp add: runs_take)
          ultimately show ?thesis using step IH True pw by simp
        qed
      qed
    qed
  qed
qed

lemma runs_subset: "w \<in> set (runs P s) \<Longrightarrow> set w \<subseteq> set s"
proof (induction P s rule: runs.induct)
  case (1 P s)
  show ?case
  proof (cases s)
    case Nil
    with "1.prems" show ?thesis by (simp add: runs_Nil)
  next
    case (Cons c cs)
    show ?thesis
    proof (cases "P c")
      case True
      with "1.prems" Cons
      have "w = takeWhile P s \<or> w \<in> set (runs P (dropWhile P s))"
        by (simp add: runs_take)
      then show ?thesis
      proof
        assume "w = takeWhile P s"
        then show ?thesis by (auto dest: set_takeWhileD)
      next
        assume "w \<in> set (runs P (dropWhile P s))"
        then have "set w \<subseteq> set (dropWhile P s)"
          using Cons True by (intro "1.IH"(1)) simp_all
        then show ?thesis using set_dropWhileD by fastforce
      qed
    next
      case False
      with "1.prems" Cons have "w \<in> set (runs P (tl s))" by (simp add: runs_skip)
      then have "set w \<subseteq> set (tl s)"
        using Cons False by (intro "1.IH"(2)) simp_all
      then show ?thesis using Cons by auto
    qed
  qed
qed

lemma lower_of_upper:
  "\<forall>a \<in> set ''ABCDEFGHIJKLMNOPQRSTUVWXYZ''. \<not> is_upper (lower_char a)"
  by code_simp

lemma lower_not_upper: "\<forall>p \<in> set lower_table. \<not> is_upper (snd p)"
  by code_simp

lemma lower_char_not_upper: "\<not> is_upper (lower_char c)"
proof
  assume up: "is_upper (lower_char c)"
  from lower_char_cases [OF refl, of c]
  show False
  proof
    assume "lower_char c = c"
    with up have "c \<in> set ''ABCDEFGHIJKLMNOPQRSTUVWXYZ''" by (simp only: is_upper_def)
    with lower_of_upper up show False by blast
  next
    assume "(c, lower_char c) \<in> set lower_table"
    with lower_not_upper have "\<not> is_upper (snd (c, lower_char c))" by blast
    with up show False by simp
  qed
qed

lemma lower_alpha_is_lower:
  assumes "set w \<subseteq> set (lower t)" and "list_all is_alpha w"
  shows "list_all is_lower w"
proof -
  have "is_lower x" if "x \<in> set w" for x
  proof -
    from that assms(1) obtain c where "x = lower_char c" by (auto simp: lower_def)
    then have "\<not> is_upper x" by (simp add: lower_char_not_upper)
    moreover from that assms(2) have "is_alpha x" by (simp add: list_all_iff)
    ultimately show ?thesis by (simp add: is_alpha_def)
  qed
  then show ?thesis by (simp add: list_all_iff)
qed

text \<open>
  Claim C6, as amended. \<open>generate_tags\<close> lowercases the title, cuts it into the maximal runs
  of word characters (those of \<open>\w\<close>: the ASCII letters, digits and underscore, and the
  alphanumeric characters beyond ASCII), keeps the runs that consist of at least four ASCII
  letters and nothing else, removes the stop words and returns the first five of the rest,
  in order of appearance and without removing duplicates. Every tag returned is a word of at
  least four lowercase ASCII letters that is no stop word, and there are at most five.
\<close>

theorem generate_tags_word_runs:
  "generate_tags t =
     take 5 (filter (\<lambda>w. w \<notin> stop_words)
       (filter (\<lambda>w. 4 \<le> length w \<and> list_all is_alpha w) (runs is_word (lower t))))
   \<and> length (generate_tags t) \<le> 5
   \<and> (\<forall>tag \<in> set (generate_tags t).
         4 \<le> length tag \<and> list_all is_lower tag \<and> tag \<notin> stop_words)"
proof -
  let ?good = "\<lambda>w. 4 \<le> length w \<and> list_all is_alpha w"
  have good: "good_run = ?good" by (rule ext) (simp add: good_run_def)
  have eq: "generate_tags t =
     take 5 (filter (\<lambda>w. w \<notin> stop_words) (filter ?good (runs is_word (lower t))))"
    unfolding good [symmetric]
    by (simp add: generate_tags_def Let_def findall_tag_runs prev_is_word_def)
  have len: "length (generate_tags t) \<le> 5" unfolding eq by simp
  have "4 \<le> length tag \<and> list_all is_lower tag \<and> tag \<notin> stop_words"
    if "tag \<in> set (generate_tags t)" for tag
  proof -
    from that have "tag \<in> set (filter (\<lambda>w. w \<notin> stop_words) (filter ?good (runs is_word (lower t))))"
      unfolding eq by (rule in_set_takeD)
    then have a: "tag \<notin> stop_words" and b: "4 \<le> length tag" and c: "list_all is_alpha tag"
      and d: "tag \<in> set (runs is_word (lower t))"
      by simp_all
    from d have "set tag \<subseteq> set (lower t)" by (rule runs_subset)
    then have "list_all is_lower tag" using c by (rule lower_alpha_is_lower)
    with a b show ?thesis by simp
  qed
  with eq len show ?thesis by blast
qed

theorem generate_tags_word_runs_witness:
  "generate_tags ''The Quick Brown Fox Jumps Over'' = [''quick'', ''brown'', ''jumps'', ''over'']
   \<and> generate_tags (''Exploit'' @ [CHR 0xC9] @ '' Kits for sale'') = [''kits'', ''sale'']"
proof -
  let ?accented = "''Exploit'' @ [CHR 0xC9] @ '' Kits for sale''"
  have "take 5 (filter (\<lambda>w. w \<notin> stop_words)
       (filter (\<lambda>w. 4 \<le> length w \<and> list_all is_alpha w)
          (runs is_word (lower ''The Quick Brown Fox Jumps Over''))))
      = [''quick'', ''brown'', ''jumps'', ''over'']"
    by code_simp
  with generate_tags_word_runs [of "''The Quick Brown Fox Jumps Over''"]
  have plain: "generate_tags ''The Quick Brown Fox Jumps Over''
                 = [''quick'', ''brown'', ''jumps'', ''over'']"
    by (simp only:)
  have "take 5 (filter (\<lambda>w. w \<notin> stop_words)
       (filter (\<lambda>w. 4 \<le> length w \<and> list_all is_alpha w)
          (runs is_word (lower (''Exploit'' @ [CHR 0xC9] @ '' Kits for sale'')))))
      = [''kits'', ''sale'']"
    by code_simp
  with generate_tags_word_runs [of ?accented]
  have "generate_tags ?accented = [''kits'', ''sale'']"
    by (simp only:)
  with plain show ?thesis by (simp only: simp_thms)
qed

theorem generate_tags_not_alphabetic_runs:
  "generate_tags ''Log4Shell exploit'' = [''exploit'']
   \<and> spec_generate_tags ''Log4Shell exploit'' = [''shell'', ''exploit'']"
  by code_simp

end
